theory Spec2Isabelle
  imports Main "HOL-Library.Word" "HOL-Library.Sublist" "HOL-Library.Multiset"
begin

unbundle bit_operations_syntax

section \<open>The Osiris callback manager of the Lua server binding\<close>

text \<open>
  The development embeds \<^verbatim>\<open>PendingCallbackManager\<close> and \<^verbatim>\<open>OsirisCallbackManager\<close>,
  whose member functions stand in \<^verbatim>\<open>CoreLib/Base/BaseUtilities.h\<close> from line 311 on.
  Member variables become the fields of one record, every member function takes the
  record and returns the new one. What the functions use and the source files do not
  define is taken as a parameter, collected in the record \<open>env\<close>: the four reference
  bits, the symbol table behind \<^verbatim>\<open>LookupOsiFunction\<close>, the value conversion
  \<^verbatim>\<open>OsiToLua\<close>, the bodies of the Lua handlers, and the order in which the
  \<^verbatim>\<open>std::unordered_multimap\<close> of the standard library at hand holds its entries.
\<close>

subsection \<open>Data\<close>

text \<open>A \<^verbatim>\<open>RegistryEntry\<close> is an opaque reference into the Lua registry.\<close>

type_synonym RegistryEntry = nat

text \<open>An Osiris value, as far as the manager looks at it: it is only passed on.\<close>

type_synonym OsiValue = int

datatype lua_value = LuaFunction RegistryEntry | LuaValue int | LuaErrorMessage

datatype HookType = BeforeTrigger | AfterTrigger | BeforeDeleteTrigger | AfterDeleteTrigger

record OsirisHookSignature =
  sig_name :: string
  sig_arity :: "32 word"
  sig_type :: HookType

text \<open>
  The function types the source names, and one constructor for all the others of the enum.
\<close>

datatype FunctionType = Event | Query | Call | Database | Proc | UserQuery | OtherFunctionType

text \<open>
  The part of a \<^verbatim>\<open>Function\<close> that \<^verbatim>\<open>RegisterNodeHandler\<close> reads. Both identifiers are
  held as the 64 bit value they have once converted for the assignment to
  \<^verbatim>\<open>uint64_t nodeRef\<close>; \<open>Node_Get\<close> says whether \<^verbatim>\<open>func->Node.Get()\<close> is a node.
\<close>

record Function =
  Type :: FunctionType
  OsiFunctionId :: "64 word"
  Node_Id :: "64 word"
  Node_Get :: bool

datatype warning = SymbolNotFound | SymbolNotHookable | DeleteTriggerOnEvent

datatype event =
    Invoked nat RegistryEntry "lua_value list"
  | OsiWarn warning string "32 word"
  | LuaError
  | HookNodeVMTs
  | BindCallbackManager

text \<open>
  What a Lua handler does while it runs, seen from the manager: it calls \<^verbatim>\<open>Subscribe\<close>,
  or it makes the engine enter one of the eight hooks again; then it returns, raises a Lua
  error, or a native exception leaves it with some values still above the frame.
\<close>

datatype hook =
    OnInsertPre "64 word" "OsiValue list option" bool
  | OnInsertPost "64 word" "OsiValue list option" bool
  | OnCallQueryPre "64 word" "OsiValue list"
  | OnCallQueryPost "64 word" "OsiValue list" bool
  | OnCallPre "32 word" "OsiValue list"
  | OnCallPost "32 word" "OsiValue list" bool
  | OnEventPre "64 word" "OsiValue list"
  | OnEventPost "64 word" "OsiValue list"

datatype action =
    DoSubscribe string "32 word" HookType RegistryEntry
  | DoHook hook

datatype outcome = Returned | ScriptError | NativeFault "lua_value list"

text \<open>
  The last two fields stand for the hash container. \<open>equal_rank vs v\<close> ranks the value
  \<open>v\<close> among the values \<open>vs\<close> that were inserted under one key, \<open>vs\<close> in the order of
  their insertion; \<open>bucket_rank ks k\<close> ranks the key \<open>k\<close> among the keys \<open>ks\<close> of the
  name-based map. The container yields by increasing rank.
\<close>

record env =
  BeforeFunctionRef :: "64 word"
  AfterFunctionRef :: "64 word"
  AfterTriggerNodeRef :: "64 word"
  DeleteTriggerNodeRef :: "64 word"
  LookupOsiFunction :: "string \<Rightarrow> 32 word \<Rightarrow> Function option"
  OsiToLua :: "OsiValue \<Rightarrow> lua_value"
  handler_body :: "RegistryEntry \<Rightarrow> lua_value list \<Rightarrow> action list \<times> outcome"
  equal_rank :: "nat list \<Rightarrow> nat \<Rightarrow> int"
  bucket_rank :: "OsirisHookSignature list \<Rightarrow> OsirisHookSignature \<Rightarrow> int"

text \<open>
  Each of the two \<^verbatim>\<open>std::unordered_multimap\<close>s is held as the list of the entries
  inserted into it, \<^verbatim>\<open>insert\<close> appending. The list says which entries the map holds; in
  which order the container yields them is not for the source to say, and
  \<open>range_order\<close> and \<open>iteration_order\<close> below take it from the parameters. The arrays
  of the pool live in \<open>heap\<close>, a pointer to one is its position there, and
  \<^verbatim>\<open>GameAlloc\<close> appends a new empty array. \<open>stack\<close> is the Lua stack, top first;
  \<open>trace\<close> collects what the manager makes happen outside itself, an invocation of a
  handler together with the depth of the pool at which it is made.
\<close>

record manager =
  subscribers :: "RegistryEntry list"
  nameSubscriberRefs :: "(OsirisHookSignature \<times> nat) list"
  nodeSubscriberRefs :: "(64 word \<times> nat) list"
  cache :: "nat list"
  depth :: nat
  heap :: "nat list list"
  storyLoaded :: bool
  osirisHooked :: bool
  merging :: bool
  luaAvailable :: bool
  stack :: "lua_value list"
  trace :: "event list"

datatype fault = AssertionFailed | OutOfBounds | StackOverflow

text \<open>The values inserted under a key, in the order of their insertion.\<close>

definition equal_range :: "'k \<Rightarrow> ('k \<times> 'v) list \<Rightarrow> 'v list" where
  "equal_range k xs = map snd (filter (\<lambda>p. fst p = k) xs)"

text \<open>
  The values of one key in the order in which the iterators of the container pass over
  them, \<^verbatim>\<open>it.first\<close> to \<^verbatim>\<open>it.second\<close> of \<^verbatim>\<open>equal_range\<close>: by increasing rank, values
  of the same rank in the order of their insertion. Whatever the ranks, it is a
  rearrangement of the values inserted.
\<close>

definition range_order :: "env \<Rightarrow> nat list \<Rightarrow> nat list" where
  "range_order E vs = sort_key (equal_rank E vs) vs"

text \<open>
  The entries of the name-based map in the order of a range-based \<^verbatim>\<open>for\<close> over it: the
  entries of one key stand together, in the order of its range, and the keys follow each
  other by rank.
\<close>

definition iteration_order ::
  "env \<Rightarrow> (OsirisHookSignature \<times> nat) list \<Rightarrow> (OsirisHookSignature \<times> nat) list" where
  "iteration_order E xs =
     concat (map (\<lambda>k. map (Pair k) (range_order E (equal_range k xs)))
               (sort_key (bucket_rank E (map fst xs)) (remdups (map fst xs))))"

definition log :: "event \<Rightarrow> manager \<Rightarrow> manager" where
  "log e m = m\<lparr>trace := trace m @ [e]\<rparr>"

subsection \<open>Hook installation and resolution\<close>

definition HookOsiris :: "manager \<Rightarrow> manager" where
  "HookOsiris m =
     (if osirisHooked m then m
      else (log BindCallbackManager (log HookNodeVMTs m))\<lparr>osirisHooked := True\<rparr>)"

text \<open>
  The first statements of \<^verbatim>\<open>RegisterNodeHandler\<close>: the symbol looked up, a user query
  replaced by the symbol of its definition.
\<close>

definition RegisterNodeHandler_func :: "env \<Rightarrow> OsirisHookSignature \<Rightarrow> Function option" where
  "RegisterNodeHandler_func E sig =
     (let func = LookupOsiFunction E (sig_name sig) (sig_arity sig)
      in case func of
           Some f \<Rightarrow>
             if Type f = UserQuery
             then LookupOsiFunction E (sig_name sig @ ''__DEF__'') (sig_arity sig)
             else func
         | None \<Rightarrow> func)"

text \<open>
  \<^verbatim>\<open>RegisterNodeHandler\<close> up to its last line: the warning it prints, or the node
  reference it is about to insert.
\<close>

definition RegisterNodeHandler_nodeRef :: "env \<Rightarrow> OsirisHookSignature \<Rightarrow> warning + 64 word" where
  "RegisterNodeHandler_nodeRef E sig =
     (case RegisterNodeHandler_func E sig of
        None \<Rightarrow> Inl SymbolNotFound
      | Some f \<Rightarrow>
          if (Type f \<noteq> Event \<and> Type f \<noteq> Call \<and> \<not> Node_Get f)
             \<or> (Type f \<noteq> Event \<and> Type f \<noteq> Query \<and> Type f \<noteq> Call
                 \<and> Type f \<noteq> UserQuery \<and> Type f \<noteq> Database \<and> Type f \<noteq> Proc)
          then Inl SymbolNotHookable
          else if Type f = Event \<or> Type f = Call
          then (if sig_type sig = BeforeTrigger
                then Inr (OsiFunctionId f OR BeforeFunctionRef E)
                else if sig_type sig = AfterTrigger
                then Inr (OsiFunctionId f OR AfterFunctionRef E)
                else Inl DeleteTriggerOnEvent)
          else (let nodeRef = Node_Id f;
                    nodeRef = (if sig_type sig = AfterTrigger \<or> sig_type sig = AfterDeleteTrigger
                               then nodeRef OR AfterTriggerNodeRef E else nodeRef);
                    nodeRef = (if sig_type sig = BeforeDeleteTrigger
                                  \<or> sig_type sig = AfterDeleteTrigger
                               then nodeRef OR DeleteTriggerNodeRef E else nodeRef)
                in Inr nodeRef))"

definition RegisterNodeHandler :: "env \<Rightarrow> OsirisHookSignature \<Rightarrow> nat \<Rightarrow> manager \<Rightarrow> manager" where
  "RegisterNodeHandler E sig handlerId m =
     (case RegisterNodeHandler_nodeRef E sig of
        Inl w \<Rightarrow> log (OsiWarn w (sig_name sig) (sig_arity sig)) m
      | Inr nodeRef \<Rightarrow> m\<lparr>nodeSubscriberRefs := nodeSubscriberRefs m @ [(nodeRef, handlerId)]\<rparr>)"

definition Subscribe ::
  "env \<Rightarrow> string \<Rightarrow> 32 word \<Rightarrow> HookType \<Rightarrow> RegistryEntry \<Rightarrow> manager \<Rightarrow> manager" where
  "Subscribe E name arity type handler m =
     (let sig = \<lparr>sig_name = name, sig_arity = arity, sig_type = type\<rparr>;
          handlerId = length (subscribers m);
          m = m\<lparr>nameSubscriberRefs := nameSubscriberRefs m @ [(sig, handlerId)]\<rparr>;
          m = m\<lparr>subscribers := subscribers m @ [handler]\<rparr>
      in if storyLoaded m then RegisterNodeHandler E sig handlerId (HookOsiris m) else m)"

definition StoryLoaded :: "env \<Rightarrow> manager \<Rightarrow> manager" where
  "StoryLoaded E m =
     (let m = HookOsiris m;
          m = m\<lparr>storyLoaded := True\<rparr>;
          m = m\<lparr>nodeSubscriberRefs := []\<rparr>
      in fold (\<lambda>it. RegisterNodeHandler E (fst it) (snd it))
           (iteration_order E (nameSubscriberRefs m)) m)"

definition StorySetMerging :: "bool \<Rightarrow> manager \<Rightarrow> manager" where
  "StorySetMerging isMerging m = m\<lparr>merging := isMerging\<rparr>"

subsection \<open>The dispatch buffer\<close>

text \<open>
  \<^verbatim>\<open>Enter\<close> receives the handler indices of the iterator range, in the order of the range. A read
  of \<^verbatim>\<open>cache_\<close> or of the heap outside its bounds is the fault \<open>OutOfBounds\<close>. The
  \<^verbatim>\<open>assert\<close> of \<^verbatim>\<open>Exit\<close> is modelled as checked: where it fails the result is
  \<open>AssertionFailed\<close>.
\<close>

definition Enter :: "nat list \<Rightarrow> manager \<Rightarrow> fault + (nat \<times> manager)" where
  "Enter its m =
     (let m = (if depth m \<ge> length (cache m)
               then m\<lparr>cache := cache m @ [length (heap m)], heap := heap m @ [[]]\<rparr>
               else m)
      in if depth m < length (cache m)
         then (let entry = cache m ! depth m
               in if entry < length (heap m)
                  then (let m = m\<lparr>heap := (heap m)[entry := []]\<rparr>;
                            m = m\<lparr>depth := depth m + 1\<rparr>;
                            m = m\<lparr>heap := (heap m)[entry := fold (\<lambda>v arr. arr @ [v]) its (heap m ! entry)]\<rparr>
                        in Inr (entry, m))
                  else Inl OutOfBounds)
         else Inl OutOfBounds)"

definition Exit :: "nat \<Rightarrow> manager \<Rightarrow> fault + manager" where
  "Exit v m =
     (if depth m > 0
      then (if depth m - 1 < length (cache m)
            then (if cache m ! (depth m - 1) = v
                  then Inr (m\<lparr>depth := depth m - 1\<rparr>)
                  else Inl AssertionFailed)
            else Inl OutOfBounds)
      else Inl AssertionFailed)"

subsection \<open>Running one handler\<close>

text \<open>
  The embedded runtime calls a handler through \<open>call\<close>: given the handler, its arguments
  and the manager, it yields how the handler ended and the manager the handler left
  behind, or a fault. The operations below take \<open>call\<close> as a parameter;
  \<open>lua_call\<close> at the end of the section closes the recursion.
\<close>

type_synonym callfn =
  "RegistryEntry \<Rightarrow> lua_value list \<Rightarrow> manager \<Rightarrow> fault + (outcome \<times> manager)"

datatype call_status = CallOk | CallFailed | CallThrew

text \<open>
  Modelled from the spec: \<^verbatim>\<open>CallWithTraceback\<close> is not among the source files. It is the
  protected call of the runtime with no results: the function below the \<open>numArgs\<close>
  arguments is called; when it returns, function and arguments are gone from the stack;
  when it raises a script error they are replaced by the one error value; when a native
  exception escapes, nothing is unwound and the values the handler left lie above them.
\<close>

definition CallWithTraceback :: "callfn \<Rightarrow> nat \<Rightarrow> manager \<Rightarrow> fault + (call_status \<times> manager)" where
  "CallWithTraceback call numArgs m =
     (case drop numArgs (stack m) of
        LuaFunction h # base \<Rightarrow>
          (let args = rev (take numArgs (stack m))
           in case call h args (log (Invoked (depth m) h args) m) of
                Inl e \<Rightarrow> Inl e
              | Inr (Returned, m') \<Rightarrow> Inr (CallOk, m'\<lparr>stack := base\<rparr>)
              | Inr (ScriptError, m') \<Rightarrow> Inr (CallFailed, m'\<lparr>stack := LuaErrorMessage # base\<rparr>)
              | Inr (NativeFault left, m') \<Rightarrow> Inr (CallThrew, m'\<lparr>stack := left @ stack m\<rparr>))
      | _ \<Rightarrow> Inr (CallFailed, m\<lparr>stack := LuaErrorMessage # drop (Suc numArgs) (stack m)\<rparr>))"

text \<open>
  The loop that converts and pushes the arguments and counts them. \<^verbatim>\<open>OsiToLua\<close>, a
  parameter, is the conversion as the specification has it: one value pushed for each
  argument.
\<close>

fun push_args :: "env \<Rightarrow> OsiValue list \<Rightarrow> nat \<Rightarrow> manager \<Rightarrow> nat \<times> manager" where
  "push_args E [] numArgs m = (numArgs, m)"
| "push_args E (a # as) numArgs m =
     push_args E as (numArgs + 1) (m\<lparr>stack := OsiToLua E a # stack m\<rparr>)"

definition lua_pop :: "nat \<Rightarrow> manager \<Rightarrow> manager" where
  "lua_pop n m = m\<lparr>stack := drop n (stack m)\<rparr>"

text \<open>The \<^verbatim>\<open>catch\<close> block of \<^verbatim>\<open>RunHandler\<close>.\<close>

definition catch_Exception :: "int \<Rightarrow> manager \<Rightarrow> manager" where
  "catch_Exception stackSize m =
     (let stackRemaining = int (length (stack m)) - stackSize
      in if stackRemaining > 0
         then lua_pop (nat stackRemaining) (log LuaError m)
         else log LuaError m)"

text \<open>
  \<^verbatim>\<open>RunHandler\<close> for the descriptor chain, given as the list of its values (\<open>[]\<close> is
  the null pointer). The counting loop and \<^verbatim>\<open>lua_checkstack\<close> change neither the stack
  nor the manager. The counters are \<^verbatim>\<open>int32_t\<close>; they stay far below \<open>2 ^ 31\<close>, the Lua
  stack being limited to a million slots, and are integers here. The guards
  \<^verbatim>\<open>StackCheck\<close> and \<^verbatim>\<open>LifetimeStackPin\<close> are declared outside the source files and
  are left out.
\<close>

definition RunHandler_args ::
  "callfn \<Rightarrow> env \<Rightarrow> RegistryEntry \<Rightarrow> OsiValue list \<Rightarrow> manager \<Rightarrow> fault + manager" where
  "RunHandler_args call E func args m =
     (let stackSize = int (length (stack m));
          m = m\<lparr>stack := LuaFunction func # stack m\<rparr>
      in case push_args E args 0 m of
           (numArgs, m) \<Rightarrow>
             (case CallWithTraceback call numArgs m of
                Inl e \<Rightarrow> Inl e
              | Inr (CallOk, m) \<Rightarrow> Inr m
              | Inr (CallFailed, m) \<Rightarrow> Inr (lua_pop 1 (log LuaError m))
              | Inr (CallThrew, m) \<Rightarrow> Inr (catch_Exception stackSize m)))"

text \<open>
  \<^verbatim>\<open>RunHandler\<close> for the tuple list, given as the list of its items, \<open>None\<close> for the
  null pointer.
\<close>

definition RunHandler_tuple ::
  "callfn \<Rightarrow> env \<Rightarrow> RegistryEntry \<Rightarrow> OsiValue list option \<Rightarrow> manager \<Rightarrow> fault + manager" where
  "RunHandler_tuple call E func tuple m =
     (let stackSize = int (length (stack m));
          m = m\<lparr>stack := LuaFunction func # stack m\<rparr>
      in case (case tuple of None \<Rightarrow> (0, m) | Some items \<Rightarrow> push_args E items 0 m) of
           (numArgs, m) \<Rightarrow>
             (case CallWithTraceback call numArgs m of
                Inl e \<Rightarrow> Inl e
              | Inr (CallOk, m) \<Rightarrow> Inr m
              | Inr (CallFailed, m) \<Rightarrow> Inr (lua_pop 1 (log LuaError m))
              | Inr (CallThrew, m) \<Rightarrow> Inr (catch_Exception stackSize m)))"

subsection \<open>Dispatch\<close>

text \<open>
  The range-based \<^verbatim>\<open>for\<close> over \<^verbatim>\<open>*indices\<close>: the end of the array is taken once, before
  the loop (\<open>k\<close> elements remain), and every step reads element \<open>i\<close> of the array at
  address \<open>indices\<close> from the heap as it then is, and the handler from \<^verbatim>\<open>subscribers_\<close>
  as it then is.
\<close>

fun for_indices ::
  "(RegistryEntry \<Rightarrow> manager \<Rightarrow> fault + manager) \<Rightarrow> nat \<Rightarrow> nat \<Rightarrow> nat \<Rightarrow> manager \<Rightarrow> fault + manager" where
  "for_indices body indices i 0 m = Inr m"
| "for_indices body indices i (Suc k) m =
     (if indices < length (heap m) \<and> i < length (heap m ! indices)
      then (let index = heap m ! indices ! i
            in if index < length (subscribers m)
               then (case body (subscribers m ! index) m of
                       Inl e \<Rightarrow> Inl e
                     | Inr m \<Rightarrow> for_indices body indices (i + 1) k m)
               else Inl OutOfBounds)
      else Inl OutOfBounds)"

definition RunHandlers_tuple ::
  "callfn \<Rightarrow> env \<Rightarrow> 64 word \<Rightarrow> OsiValue list option \<Rightarrow> manager \<Rightarrow> fault + manager" where
  "RunHandlers_tuple call E nodeRef tuple m =
     (if merging m then Inr m
      else (let it = range_order E (equal_range nodeRef (nodeSubscriberRefs m))
            in if it = [] then Inr m
               else if luaAvailable m
               then (case Enter it m of
                       Inl e \<Rightarrow> Inl e
                     | Inr (indices, m) \<Rightarrow>
                         (case for_indices (\<lambda>func. RunHandler_tuple call E func tuple)
                                 indices 0 (length (heap m ! indices)) m of
                            Inl e \<Rightarrow> Inl e
                          | Inr m \<Rightarrow> Exit indices m))
               else Inr m))"

definition RunHandlers_args ::
  "callfn \<Rightarrow> env \<Rightarrow> 64 word \<Rightarrow> OsiValue list \<Rightarrow> manager \<Rightarrow> fault + manager" where
  "RunHandlers_args call E nodeRef args m =
     (let it = range_order E (equal_range nodeRef (nodeSubscriberRefs m))
      in if it = [] then Inr m
         else if luaAvailable m
         then (case Enter it m of
                 Inl e \<Rightarrow> Inl e
               | Inr (indices, m) \<Rightarrow>
                   (case for_indices (\<lambda>func. RunHandler_args call E func args)
                           indices 0 (length (heap m ! indices)) m of
                      Inl e \<Rightarrow> Inl e
                    | Inr m \<Rightarrow> Exit indices m))
         else Inr m)"

subsection \<open>The entry points of the patched engine\<close>

definition InsertPreHook ::
  "callfn \<Rightarrow> env \<Rightarrow> 64 word \<Rightarrow> OsiValue list option \<Rightarrow> bool \<Rightarrow> manager \<Rightarrow> fault + manager" where
  "InsertPreHook call E node_Id tuple deleted m =
     (let nodeRef = node_Id;
          nodeRef = (if deleted then nodeRef OR DeleteTriggerNodeRef E else nodeRef)
      in RunHandlers_tuple call E nodeRef tuple m)"

definition InsertPostHook ::
  "callfn \<Rightarrow> env \<Rightarrow> 64 word \<Rightarrow> OsiValue list option \<Rightarrow> bool \<Rightarrow> manager \<Rightarrow> fault + manager" where
  "InsertPostHook call E node_Id tuple deleted m =
     (let nodeRef = node_Id OR AfterTriggerNodeRef E;
          nodeRef = (if deleted then nodeRef OR DeleteTriggerNodeRef E else nodeRef)
      in RunHandlers_tuple call E nodeRef tuple m)"

definition CallQueryPreHook ::
  "callfn \<Rightarrow> env \<Rightarrow> 64 word \<Rightarrow> OsiValue list \<Rightarrow> manager \<Rightarrow> fault + manager" where
  "CallQueryPreHook call E node_Id args m = RunHandlers_args call E node_Id args m"

definition CallQueryPostHook ::
  "callfn \<Rightarrow> env \<Rightarrow> 64 word \<Rightarrow> OsiValue list \<Rightarrow> bool \<Rightarrow> manager \<Rightarrow> fault + manager" where
  "CallQueryPostHook call E node_Id args succeeded m =
     (let nodeRef = node_Id OR AfterTriggerNodeRef E
      in RunHandlers_args call E nodeRef args m)"

definition CallPreHook ::
  "callfn \<Rightarrow> env \<Rightarrow> 32 word \<Rightarrow> OsiValue list \<Rightarrow> manager \<Rightarrow> fault + manager" where
  "CallPreHook call E functionId args m =
     (let nodeRef = ucast functionId OR BeforeFunctionRef E
      in RunHandlers_args call E nodeRef args m)"

definition CallPostHook ::
  "callfn \<Rightarrow> env \<Rightarrow> 32 word \<Rightarrow> OsiValue list \<Rightarrow> bool \<Rightarrow> manager \<Rightarrow> fault + manager" where
  "CallPostHook call E functionId args succeeded m =
     (let nodeRef = ucast functionId OR AfterFunctionRef E
      in RunHandlers_args call E nodeRef args m)"

definition EventPreHook ::
  "callfn \<Rightarrow> env \<Rightarrow> 64 word \<Rightarrow> OsiValue list \<Rightarrow> manager \<Rightarrow> fault + manager" where
  "EventPreHook call E node_OsiFunctionId args m =
     (let nodeRef = node_OsiFunctionId OR BeforeFunctionRef E
      in RunHandlers_args call E nodeRef args m)"

definition EventPostHook ::
  "callfn \<Rightarrow> env \<Rightarrow> 64 word \<Rightarrow> OsiValue list \<Rightarrow> manager \<Rightarrow> fault + manager" where
  "EventPostHook call E node_OsiFunctionId args m =
     (let nodeRef = node_OsiFunctionId OR AfterFunctionRef E
      in RunHandlers_args call E nodeRef args m)"

subsection \<open>Handlers that enter the manager again\<close>

fun run_hook :: "callfn \<Rightarrow> env \<Rightarrow> hook \<Rightarrow> manager \<Rightarrow> fault + manager" where
  "run_hook call E (OnInsertPre n t d) m = InsertPreHook call E n t d m"
| "run_hook call E (OnInsertPost n t d) m = InsertPostHook call E n t d m"
| "run_hook call E (OnCallQueryPre n a) m = CallQueryPreHook call E n a m"
| "run_hook call E (OnCallQueryPost n a s) m = CallQueryPostHook call E n a s m"
| "run_hook call E (OnCallPre f a) m = CallPreHook call E f a m"
| "run_hook call E (OnCallPost f a s) m = CallPostHook call E f a s m"
| "run_hook call E (OnEventPre f a) m = EventPreHook call E f a m"
| "run_hook call E (OnEventPost f a) m = EventPostHook call E f a m"

fun run_action :: "callfn \<Rightarrow> env \<Rightarrow> action \<Rightarrow> manager \<Rightarrow> fault + manager" where
  "run_action call E (DoSubscribe name arity type handler) m =
     Inr (Subscribe E name arity type handler m)"
| "run_action call E (DoHook h) m = run_hook call E h m"

fun run_actions :: "callfn \<Rightarrow> env \<Rightarrow> action list \<Rightarrow> manager \<Rightarrow> fault + manager" where
  "run_actions call E [] m = Inr m"
| "run_actions call E (a # as) m =
     (case run_action call E a m of
        Inl e \<Rightarrow> Inl e
      | Inr m \<Rightarrow> run_actions call E as m)"

text \<open>
  The runtime running a handler body: the actions of the handler in turn, then its
  outcome. The number bounds the nesting of handler calls, as the call stack of the host
  does; beyond it the result is \<open>StackOverflow\<close>.
\<close>

primrec lua_call :: "env \<Rightarrow> nat \<Rightarrow> callfn" where
  "lua_call E 0 = (\<lambda>h args m. Inl StackOverflow)"
| "lua_call E (Suc n) =
     (\<lambda>h args m.
        case run_actions (lua_call E n) E (fst (handler_body E h args)) m of
          Inl e \<Rightarrow> Inl e
        | Inr m \<Rightarrow> Inr (snd (handler_body E h args), m))"

subsection \<open>The encoding of node references, in the words of the specification\<close>

text \<open>
  Event and call symbols: the function identifier with the before-function bit for the
  phase Before, with the after-function bit otherwise. Symbols backed by a node: the node
  identifier, with the after bit for the phases After and AfterDelete, and with the
  delete bit for the phases BeforeDelete and AfterDelete.
\<close>

definition spec_nodeRef :: "env \<Rightarrow> Function \<Rightarrow> HookType \<Rightarrow> 64 word" where
  "spec_nodeRef E f phase =
     (if Type f = Event \<or> Type f = Call
      then OsiFunctionId f OR (if phase = BeforeTrigger then BeforeFunctionRef E else AfterFunctionRef E)
      else Node_Id f
           OR (if phase \<in> {AfterTrigger, AfterDeleteTrigger} then AfterTriggerNodeRef E else 0)
           OR (if phase \<in> {BeforeDeleteTrigger, AfterDeleteTrigger} then DeleteTriggerNodeRef E else 0))"

subsection \<open>A small story, for the examples\<close>

text \<open>
  A database \<open>DB_Players/1\<close> on node 42, an event \<open>TextEvent/1\<close> with function
  identifier 9; handler 1 subscribes handler 4 to the database, handler 2 raises a Lua
  error, handler 3 lets a native exception escape with one value left on the stack, every
  other handler just returns. The container of the story keeps the entries of one key,
  and the keys, in the order of their insertion: all ranks are equal.
\<close>

definition story_lookup :: "string \<Rightarrow> 32 word \<Rightarrow> Function option" where
  "story_lookup n a =
     (if n = ''DB_Players'' \<and> a = 1
      then Some \<lparr>Type = Database, OsiFunctionId = 7, Node_Id = 42, Node_Get = True\<rparr>
      else if n = ''TextEvent'' \<and> a = 1
      then Some \<lparr>Type = Event, OsiFunctionId = 9, Node_Id = 0, Node_Get = False\<rparr>
      else None)"

definition story_body :: "RegistryEntry \<Rightarrow> lua_value list \<Rightarrow> action list \<times> outcome" where
  "story_body h args =
     (if h = 1 then ([DoSubscribe ''DB_Players'' 1 AfterTrigger 4], Returned)
      else if h = 2 then ([], ScriptError)
      else if h = 3 then ([], NativeFault [LuaValue 5])
      else ([], Returned))"

definition story_env :: env where
  "story_env =
     \<lparr>BeforeFunctionRef = 0x2000000000000000, AfterFunctionRef = 0x1000000000000000,
      AfterTriggerNodeRef = 0x8000000000000000, DeleteTriggerNodeRef = 0x4000000000000000,
      LookupOsiFunction = story_lookup,
      OsiToLua = LuaValue,
      handler_body = story_body,
      equal_rank = (\<lambda>vs v. 0),
      bucket_rank = (\<lambda>ks k. 0)\<rparr>"



text \<open>
  \<open>keeps_insertion_order E\<close>: the container yields the entries of one key in the order
  of their insertion, as the story's does.
\<close>

definition keeps_insertion_order :: "env \<Rightarrow> bool" where
  "keeps_insertion_order E \<longleftrightarrow> (\<forall>vs. range_order E vs = vs)"

text \<open>The manager as its constructor leaves it, with a Lua state.\<close>

definition new_manager :: manager where
  "new_manager =
     \<lparr>subscribers = [], nameSubscriberRefs = [], nodeSubscriberRefs = [],
      cache = [], depth = 0, heap = [],
      storyLoaded = False, osirisHooked = False, merging = False,
      luaAvailable = True, stack = [], trace = []\<rparr>"

text \<open>The same manager once the story is loaded, with a handler on the event and one on
  the database, while the story is merging.\<close>

definition merging_manager :: manager where
  "merging_manager =
     StorySetMerging True
       (Subscribe story_env ''DB_Players'' 1 BeforeTrigger 6
         (Subscribe story_env ''TextEvent'' 1 BeforeTrigger 7
           (StoryLoaded story_env new_manager)))"

subsection \<open>Well-formed states\<close>

text \<open>
  The pool as \<^verbatim>\<open>Enter\<close> and \<^verbatim>\<open>Exit\<close> keep it: the depth within the cache, and the
  cache holding distinct arrays of the heap.
\<close>

definition pool_ok :: "manager \<Rightarrow> bool" where
  "pool_ok m \<longleftrightarrow>
     depth m \<le> length (cache m) \<and> distinct (cache m) \<and> (\<forall>a \<in> set (cache m). a < length (heap m))"

text \<open>
  Every handler index stored in one of the two maps is an index into \<^verbatim>\<open>subscribers_\<close>.
\<close>

definition indices_valid :: "manager \<Rightarrow> bool" where
  "indices_valid m \<longleftrightarrow>
     (\<forall>p \<in> set (nameSubscriberRefs m). snd p < length (subscribers m))
     \<and> (\<forall>p \<in> set (nodeSubscriberRefs m). snd p < length (subscribers m))"

definition manager_ok :: "manager \<Rightarrow> bool" where
  "manager_ok m \<longleftrightarrow> pool_ok m \<and> indices_valid m"

text \<open>
  The handlers a trace shows invoked while the pool was at depth \<open>d\<close>, in order; the
  handlers of a firing entered at depth \<open>d\<close> are invoked at depth \<open>d + 1\<close>, those of
  the firings nested in it deeper.
\<close>

fun invoked_at :: "nat \<Rightarrow> event \<Rightarrow> RegistryEntry list" where
  "invoked_at d (Invoked k h args) = (if k = d then [h] else [])"
| "invoked_at d e = []"

definition handlers_invoked_at :: "nat \<Rightarrow> event list \<Rightarrow> RegistryEntry list" where
  "handlers_invoked_at d evs = concat (map (invoked_at d) evs)"

fun from_depth :: "nat \<Rightarrow> event \<Rightarrow> bool" where
  "from_depth d (Invoked k h args) = (d \<le> k)"
| "from_depth d e = True"

text \<open>What the trace of a later state adds.\<close>

definition new_events :: "manager \<Rightarrow> manager \<Rightarrow> event list" where
  "new_events m m' = drop (length (trace m)) (trace m')"

text \<open>
  \<open>frame m m'\<close>: what a dispatch started in \<open>m\<close> leaves alone when it ends in
  \<open>m'\<close>. Both states are well-formed, the depth is the same, the arrays of the pool
  below the depth hold what they held, handlers, node references and trace have only
  grown, the Lua stack and the flags are the same. \<open>later\<close> adds that every new
  invocation was made deeper in the pool.
\<close>

definition frame :: "manager \<Rightarrow> manager \<Rightarrow> bool" where
  "frame m m' \<longleftrightarrow>
     manager_ok m \<and> manager_ok m'
     \<and> depth m' = depth m
     \<and> prefix (cache m) (cache m')
     \<and> (\<forall>j < depth m. heap m' ! (cache m ! j) = heap m ! (cache m ! j))
     \<and> prefix (subscribers m) (subscribers m')
     \<and> prefix (nodeSubscriberRefs m) (nodeSubscriberRefs m')
     \<and> stack m' = stack m
     \<and> luaAvailable m' = luaAvailable m
     \<and> merging m' = merging m
     \<and> storyLoaded m' = storyLoaded m
     \<and> prefix (trace m) (trace m')"

definition later :: "manager \<Rightarrow> manager \<Rightarrow> bool" where
  "later m m' \<longleftrightarrow> frame m m' \<and> list_all (from_depth (Suc (depth m))) (new_events m m')"

text \<open>
  What the operations need of the runtime's call: on a well-formed manager it ends in a
  later manager, or in the overflow of the host's stack.
\<close>

definition call_ok :: "callfn \<Rightarrow> bool" where
  "call_ok call \<longleftrightarrow>
     (\<forall>h args m. manager_ok m \<longrightarrow>
        (case call h args m of
           Inl e \<Rightarrow> e = StackOverflow
         | Inr (out, m') \<Rightarrow> later m m'))"

text \<open>
  The one fault dispatch passes on: the overflow, come out of a call on a well-formed
  manager.
\<close>

definition call_fault :: "callfn \<Rightarrow> fault \<Rightarrow> bool" where
  "call_fault call e \<longleftrightarrow>
     e = StackOverflow \<and> (\<exists>h args m. manager_ok m \<and> call h args m = Inl e)"

text \<open>
  \<open>handlers_return E k\<close>: every handler body, run on a well-formed manager and allowed
  \<open>k\<close> levels of nesting, comes to its end. \<open>subscribes_only E\<close>: no handler body makes
  the engine enter a hook.
\<close>

definition handlers_return :: "env \<Rightarrow> nat \<Rightarrow> bool" where
  "handlers_return E k \<longleftrightarrow>
     (\<forall>h args m. manager_ok m \<longrightarrow> (\<exists>out m'. lua_call E k h args m = Inr (out, m')))"

fun is_subscribe :: "action \<Rightarrow> bool" where
  "is_subscribe (DoSubscribe name arity type handler) = True"
| "is_subscribe (DoHook h) = False"

definition subscribes_only :: "env \<Rightarrow> bool" where
  "subscribes_only E \<longleftrightarrow> (\<forall>h args. list_all is_subscribe (fst (handler_body E h args)))"

subsection \<open>The manager over its lifetime\<close>

text \<open>
  The node references \<^verbatim>\<open>StoryLoaded\<close> derives from entries of the name-based map:
  those that resolve, in the order given.
\<close>

definition resolved_refs :: "env \<Rightarrow> (OsirisHookSignature \<times> nat) list \<Rightarrow> (64 word \<times> nat) list" where
  "resolved_refs E names =
     concat (map (\<lambda>it. case RegisterNodeHandler_nodeRef E (fst it) of
                          Inl w \<Rightarrow> []
                        | Inr nodeRef \<Rightarrow> [(nodeRef, snd it)]) names)"

text \<open>
  The calls that reach the manager from outside: \<^verbatim>\<open>Subscribe\<close> from a script,
  \<^verbatim>\<open>StoryLoaded\<close> and \<^verbatim>\<open>StorySetMerging\<close> from the binding, the hooks from the engine.
\<close>

datatype api_call =
    ApiSubscribe string "32 word" HookType RegistryEntry
  | ApiStoryLoaded
  | ApiStorySetMerging bool
  | ApiHook hook

fun run_api :: "env \<Rightarrow> nat \<Rightarrow> api_call \<Rightarrow> manager \<Rightarrow> fault + manager" where
  "run_api E n (ApiSubscribe name arity type handler) m = Inr (Subscribe E name arity type handler m)"
| "run_api E n ApiStoryLoaded m = Inr (StoryLoaded E m)"
| "run_api E n (ApiStorySetMerging isMerging) m = Inr (StorySetMerging isMerging m)"
| "run_api E n (ApiHook h) m = run_hook (lua_call E n) E h m"

fun run_api_calls :: "env \<Rightarrow> nat \<Rightarrow> api_call list \<Rightarrow> manager \<Rightarrow> fault + manager" where
  "run_api_calls E n [] m = Inr m"
| "run_api_calls E n (c # cs) m =
     (case run_api E n c m of
        Inl e \<Rightarrow> Inl e
      | Inr m \<Rightarrow> run_api_calls E n cs m)"

subsection \<open>The two overloads as one\<close>

text \<open>
  \<^verbatim>\<open>RunHandlers\<close> is overloaded on the representation of the arguments; \<open>gated\<close>
  says which overload the merging flag stops, \<open>dispatches\<close> when a firing reaches the
  handlers registered for its node reference.
\<close>

datatype native_args = Tuple "OsiValue list option" | ArgumentDesc "OsiValue list"

fun RunHandlers :: "callfn \<Rightarrow> env \<Rightarrow> 64 word \<Rightarrow> native_args \<Rightarrow> manager \<Rightarrow> fault + manager" where
  "RunHandlers call E nodeRef (Tuple tuple) m = RunHandlers_tuple call E nodeRef tuple m"
| "RunHandlers call E nodeRef (ArgumentDesc args) m = RunHandlers_args call E nodeRef args m"

fun gated :: "native_args \<Rightarrow> manager \<Rightarrow> bool" where
  "gated (Tuple tuple) m = merging m"
| "gated (ArgumentDesc args) m = False"

definition dispatches :: "native_args \<Rightarrow> manager \<Rightarrow> bool" where
  "dispatches x m \<longleftrightarrow> luaAvailable m \<and> \<not> gated x m"

text \<open>The Lua values a handler is called with, for either representation.\<close>

fun lua_args :: "env \<Rightarrow> native_args \<Rightarrow> lua_value list" where
  "lua_args E (Tuple None) = []"
| "lua_args E (Tuple (Some items)) = map (OsiToLua E) items"
| "lua_args E (ArgumentDesc args) = map (OsiToLua E) args"

fun RunHandler :: "callfn \<Rightarrow> env \<Rightarrow> RegistryEntry \<Rightarrow> native_args \<Rightarrow> manager \<Rightarrow> fault + manager" where
  "RunHandler call E func (Tuple tuple) m = RunHandler_tuple call E func tuple m"
| "RunHandler call E func (ArgumentDesc args) m = RunHandler_args call E func args m"

text \<open>
  \<open>registered_from b r H m\<close>: the node-based map holds, under the reference \<open>r\<close>, an
  index not below \<open>b\<close> at which \<^verbatim>\<open>subscribers_\<close> holds the handler \<open>H\<close>.
\<close>

definition registered_from :: "nat \<Rightarrow> 64 word \<Rightarrow> RegistryEntry \<Rightarrow> manager \<Rightarrow> bool" where
  "registered_from b r H m \<longleftrightarrow>
     (\<exists>i. b \<le> i \<and> i < length (subscribers m) \<and> (r, i) \<in> set (nodeSubscriberRefs m)
          \<and> subscribers m ! i = H)"

text \<open>
  The story loaded, with the handlers 1, 2, 3 and 6 on inserts into the database; and the
  manager after one such insert, and after a second.
\<close>

definition subscribing_manager :: manager where
  "subscribing_manager =
     Subscribe story_env ''DB_Players'' 1 AfterTrigger 6
       (Subscribe story_env ''DB_Players'' 1 AfterTrigger 3
         (Subscribe story_env ''DB_Players'' 1 AfterTrigger 2
           (Subscribe story_env ''DB_Players'' 1 AfterTrigger 1
             (StoryLoaded story_env new_manager))))"

definition fired_once :: manager where
  "fired_once =
     \<lparr>subscribers = [1, 2, 3, 6, 4],
      nameSubscriberRefs =
        [(\<lparr>sig_name = ''DB_Players'', sig_arity = 1, sig_type = AfterTrigger\<rparr>, 0),
         (\<lparr>sig_name = ''DB_Players'', sig_arity = 1, sig_type = AfterTrigger\<rparr>, 1),
         (\<lparr>sig_name = ''DB_Players'', sig_arity = 1, sig_type = AfterTrigger\<rparr>, 2),
         (\<lparr>sig_name = ''DB_Players'', sig_arity = 1, sig_type = AfterTrigger\<rparr>, 3),
         (\<lparr>sig_name = ''DB_Players'', sig_arity = 1, sig_type = AfterTrigger\<rparr>, 4)],
      nodeSubscriberRefs =
        [(0x800000000000002A, 0), (0x800000000000002A, 1), (0x800000000000002A, 2),
         (0x800000000000002A, 3), (0x800000000000002A, 4)],
      cache = [0], depth = 0, heap = [[0, 1, 2, 3]], storyLoaded = True,
      osirisHooked = True, merging = False, luaAvailable = True, stack = [],
      trace = [HookNodeVMTs, BindCallbackManager, Invoked 1 1 [LuaValue 5],
               Invoked 1 2 [LuaValue 5], LuaError, Invoked 1 3 [LuaValue 5], LuaError,
               Invoked 1 6 [LuaValue 5]]\<rparr>"

definition fired_twice :: manager where
  "fired_twice =
     \<lparr>subscribers = [1, 2, 3, 6, 4, 4],
      nameSubscriberRefs =
        [(\<lparr>sig_name = ''DB_Players'', sig_arity = 1, sig_type = AfterTrigger\<rparr>, 0),
         (\<lparr>sig_name = ''DB_Players'', sig_arity = 1, sig_type = AfterTrigger\<rparr>, 1),
         (\<lparr>sig_name = ''DB_Players'', sig_arity = 1, sig_type = AfterTrigger\<rparr>, 2),
         (\<lparr>sig_name = ''DB_Players'', sig_arity = 1, sig_type = AfterTrigger\<rparr>, 3),
         (\<lparr>sig_name = ''DB_Players'', sig_arity = 1, sig_type = AfterTrigger\<rparr>, 4),
         (\<lparr>sig_name = ''DB_Players'', sig_arity = 1, sig_type = AfterTrigger\<rparr>, 5)],
      nodeSubscriberRefs =
        [(0x800000000000002A, 0), (0x800000000000002A, 1), (0x800000000000002A, 2),
         (0x800000000000002A, 3), (0x800000000000002A, 4), (0x800000000000002A, 5)],
      cache = [0], depth = 0, heap = [[0, 1, 2, 3, 4]], storyLoaded = True,
      osirisHooked = True, merging = False, luaAvailable = True, stack = [],
      trace = [HookNodeVMTs, BindCallbackManager, Invoked 1 1 [LuaValue 5],
               Invoked 1 2 [LuaValue 5], LuaError, Invoked 1 3 [LuaValue 5], LuaError,
               Invoked 1 6 [LuaValue 5], Invoked 1 1 [], Invoked 1 2 [], LuaError,
               Invoked 1 3 [], LuaError, Invoked 1 6 [], Invoked 1 4 []]\<rparr>"



section \<open>Properties\<close>

subsection \<open>Node references\<close>

lemma nodeRef_of_func:
  assumes "RegisterNodeHandler_nodeRef E sig = Inr nodeRef"
  shows "\<exists>f. RegisterNodeHandler_func E sig = Some f
     \<and> nodeRef = spec_nodeRef E f (sig_type sig)
     \<and> (Type f = Event \<or> Type f = Call \<longrightarrow> sig_type sig \<in> {BeforeTrigger, AfterTrigger})"
proof -
  from assms obtain f where f: "RegisterNodeHandler_func E sig = Some f"
    by (cases "RegisterNodeHandler_func E sig") (simp_all add: RegisterNodeHandler_nodeRef_def)
  from assms f have "nodeRef = spec_nodeRef E f (sig_type sig)
      \<and> (Type f = Event \<or> Type f = Call \<longrightarrow> sig_type sig \<in> {BeforeTrigger, AfterTrigger})"
    by (cases "sig_type sig")
       (auto simp: RegisterNodeHandler_nodeRef_def spec_nodeRef_def Let_def or.assoc split: if_splits)
  with f show ?thesis by blast
qed

text \<open>
  C5. Whenever \<^verbatim>\<open>RegisterNodeHandler\<close> resolves a signature, the node reference it
  inserts is the one the specification computes from the resolved symbol and the phase:
  for an event or a call the function identifier with the before-function bit (phase
  Before) or the after-function bit (phase After), no other phase being resolved; for a
  symbol backed by a node the node identifier with the after bit exactly for After and
  AfterDelete and the delete bit exactly for BeforeDelete and AfterDelete.
\<close>

theorem nodeRef_follows_encoding:
  assumes "RegisterNodeHandler_nodeRef E sig = Inr nodeRef"
  shows "\<exists>f. RegisterNodeHandler_func E sig = Some f
     \<and> nodeRef = spec_nodeRef E f (sig_type sig)
     \<and> (Type f = Event \<or> Type f = Call \<longrightarrow> sig_type sig \<in> {BeforeTrigger, AfterTrigger})
     \<and> nodeSubscriberRefs (RegisterNodeHandler E sig handlerId m)
         = nodeSubscriberRefs m @ [(spec_nodeRef E f (sig_type sig), handlerId)]"
proof -
  from nodeRef_of_func [OF assms] obtain f where
    f: "RegisterNodeHandler_func E sig = Some f" "nodeRef = spec_nodeRef E f (sig_type sig)"
       "Type f = Event \<or> Type f = Call \<longrightarrow> sig_type sig \<in> {BeforeTrigger, AfterTrigger}"
    by blast
  from assms f(2) have "nodeSubscriberRefs (RegisterNodeHandler E sig handlerId m)
         = nodeSubscriberRefs m @ [(spec_nodeRef E f (sig_type sig), handlerId)]"
    by (simp add: RegisterNodeHandler_def)
  with f show ?thesis by blast
qed

lemma story_DB_Players_AfterDelete:
  "RegisterNodeHandler_nodeRef story_env
     \<lparr>sig_name = ''DB_Players'', sig_arity = 1, sig_type = AfterDeleteTrigger\<rparr>
   = Inr 0xC00000000000002A"
  by (simp add: RegisterNodeHandler_nodeRef_def RegisterNodeHandler_func_def story_env_def
      story_lookup_def Let_def)

theorem nodeRef_follows_encoding_witness:
  "RegisterNodeHandler_nodeRef story_env
     \<lparr>sig_name = ''DB_Players'', sig_arity = 1, sig_type = AfterDeleteTrigger\<rparr>
   = Inr 0xC00000000000002A
   \<and> (\<exists>f. RegisterNodeHandler_func story_env
            \<lparr>sig_name = ''DB_Players'', sig_arity = 1, sig_type = AfterDeleteTrigger\<rparr> = Some f
        \<and> 0xC00000000000002A = spec_nodeRef story_env f AfterDeleteTrigger
        \<and> nodeSubscriberRefs (RegisterNodeHandler story_env
            \<lparr>sig_name = ''DB_Players'', sig_arity = 1, sig_type = AfterDeleteTrigger\<rparr> 0 new_manager)
           = [(spec_nodeRef story_env f AfterDeleteTrigger, 0)])"
  using nodeRef_follows_encoding [OF story_DB_Players_AfterDelete, of 0 new_manager]
    story_DB_Players_AfterDelete
  by (auto simp: new_manager_def)

subsection \<open>Hook installation\<close>

text \<open>
  C8. \<^verbatim>\<open>HookOsiris\<close> called twice leaves what one call leaves. On a manager that is not
  hooked the first call installs the node VMT hooks, binds the callback manager and sets
  the latch, and these two effects are all that two calls in a row add; on a hooked
  manager a call changes nothing.
\<close>

theorem HookOsiris_idempotent:
  "HookOsiris (HookOsiris m) = HookOsiris m
   \<and> (osirisHooked m \<longrightarrow> HookOsiris m = m)
   \<and> (\<not> osirisHooked m \<longrightarrow>
        HookOsiris m = m\<lparr>osirisHooked := True, trace := trace m @ [HookNodeVMTs, BindCallbackManager]\<rparr>
        \<and> trace (HookOsiris (HookOsiris m)) = trace m @ [HookNodeVMTs, BindCallbackManager])"
  by (simp add: HookOsiris_def log_def)

theorem HookOsiris_idempotent_witness:
  "\<not> osirisHooked new_manager
   \<and> trace (HookOsiris (HookOsiris new_manager)) = [HookNodeVMTs, BindCallbackManager]
   \<and> osirisHooked (HookOsiris new_manager)
   \<and> HookOsiris (HookOsiris new_manager) = HookOsiris new_manager"
proof -
  have h: "\<not> osirisHooked new_manager" by (simp add: new_manager_def)
  have t: "trace new_manager = []" by (simp add: new_manager_def)
  note i = HookOsiris_idempotent [of new_manager]
  from i have a: "HookOsiris (HookOsiris new_manager) = HookOsiris new_manager" by (rule conjunct1)
  from i h have b: "HookOsiris new_manager
      = new_manager\<lparr>osirisHooked := True, trace := trace new_manager @ [HookNodeVMTs, BindCallbackManager]\<rparr>"
    and c: "trace (HookOsiris (HookOsiris new_manager)) = trace new_manager @ [HookNodeVMTs, BindCallbackManager]"
    by blast+
  have d: "osirisHooked (HookOsiris new_manager)" by (subst b) simp
  from h a c d t show ?thesis by simp
qed

subsection \<open>The post-call hooks\<close>

text \<open>
  C9. \<^verbatim>\<open>CallQueryPostHook\<close> and \<^verbatim>\<open>CallPostHook\<close> do the same for either value of
  \<^verbatim>\<open>succeeded\<close>: same result, hence the same handler invocations in the same order.
\<close>

theorem post_hooks_ignore_succeeded:
  "CallQueryPostHook call E node_Id args True m = CallQueryPostHook call E node_Id args False m
   \<and> CallPostHook call E functionId args True m = CallPostHook call E functionId args False m"
  by (simp add: CallQueryPostHook_def CallPostHook_def)

subsection \<open>Fields that resolution and hook installation leave alone\<close>

lemma HookOsiris_fields [simp]:
  "subscribers (HookOsiris m) = subscribers m"
  "nameSubscriberRefs (HookOsiris m) = nameSubscriberRefs m"
  "nodeSubscriberRefs (HookOsiris m) = nodeSubscriberRefs m"
  "cache (HookOsiris m) = cache m"
  "depth (HookOsiris m) = depth m"
  "heap (HookOsiris m) = heap m"
  "storyLoaded (HookOsiris m) = storyLoaded m"
  "merging (HookOsiris m) = merging m"
  "luaAvailable (HookOsiris m) = luaAvailable m"
  "stack (HookOsiris m) = stack m"
  by (simp_all add: HookOsiris_def log_def)

lemma RegisterNodeHandler_fields [simp]:
  "subscribers (RegisterNodeHandler E sig i m) = subscribers m"
  "nameSubscriberRefs (RegisterNodeHandler E sig i m) = nameSubscriberRefs m"
  "cache (RegisterNodeHandler E sig i m) = cache m"
  "depth (RegisterNodeHandler E sig i m) = depth m"
  "heap (RegisterNodeHandler E sig i m) = heap m"
  "storyLoaded (RegisterNodeHandler E sig i m) = storyLoaded m"
  "osirisHooked (RegisterNodeHandler E sig i m) = osirisHooked m"
  "merging (RegisterNodeHandler E sig i m) = merging m"
  "luaAvailable (RegisterNodeHandler E sig i m) = luaAvailable m"
  "stack (RegisterNodeHandler E sig i m) = stack m"
  by (simp_all add: RegisterNodeHandler_def log_def split: sum.splits)

lemma RegisterNodeHandler_rejected:
  "RegisterNodeHandler_nodeRef E sig = Inl w \<Longrightarrow>
     RegisterNodeHandler E sig i m = log (OsiWarn w (sig_name sig) (sig_arity sig)) m"
  by (simp add: RegisterNodeHandler_def)

lemma delete_trigger_on_event:
  assumes "RegisterNodeHandler_func E sig = Some f" "Type f = Event \<or> Type f = Call"
    "sig_type sig = BeforeDeleteTrigger \<or> sig_type sig = AfterDeleteTrigger"
  shows "RegisterNodeHandler_nodeRef E sig = Inl DeleteTriggerOnEvent"
  using assms by (auto simp: RegisterNodeHandler_nodeRef_def)

subsection \<open>Subscribing\<close>

text \<open>
  C6. \<^verbatim>\<open>Subscribe\<close> always appends the handler and inserts the signature with the
  handler's index into the name-based map. Whenever resolution rejects the signature the
  node-based map stays as it was and, the story being loaded, the one thing added after
  hook installation is the warning. A delete trigger on an event or a call is rejected in
  this way. \<^verbatim>\<open>Subscribe\<close> has no failing result.
\<close>

theorem Subscribe_always_succeeds:
  fixes name arity type
  defines "sig \<equiv> \<lparr>sig_name = name, sig_arity = arity, sig_type = type\<rparr>"
  shows "subscribers (Subscribe E name arity type handler m) = subscribers m @ [handler]
   \<and> nameSubscriberRefs (Subscribe E name arity type handler m)
       = nameSubscriberRefs m @ [(sig, length (subscribers m))]
   \<and> (\<forall>w. RegisterNodeHandler_nodeRef E sig = Inl w \<longrightarrow>
         nodeSubscriberRefs (Subscribe E name arity type handler m) = nodeSubscriberRefs m
         \<and> (storyLoaded m \<longrightarrow>
               trace (Subscribe E name arity type handler m)
                 = trace (HookOsiris m) @ [OsiWarn w name arity]))
   \<and> (\<forall>f. RegisterNodeHandler_func E sig = Some f \<and> (Type f = Event \<or> Type f = Call)
            \<and> (type = BeforeDeleteTrigger \<or> type = AfterDeleteTrigger) \<longrightarrow>
         RegisterNodeHandler_nodeRef E sig = Inl DeleteTriggerOnEvent)"
proof (intro conjI allI impI)
  show "subscribers (Subscribe E name arity type handler m) = subscribers m @ [handler]"
    by (simp add: Subscribe_def Let_def)
  show "nameSubscriberRefs (Subscribe E name arity type handler m)
       = nameSubscriberRefs m @ [(sig, length (subscribers m))]"
    by (simp add: Subscribe_def Let_def sig_def)
next
  fix w assume w: "RegisterNodeHandler_nodeRef E sig = Inl w"
  show "nodeSubscriberRefs (Subscribe E name arity type handler m) = nodeSubscriberRefs m"
    using w by (simp add: Subscribe_def Let_def sig_def RegisterNodeHandler_rejected log_def)
  show "trace (Subscribe E name arity type handler m) = trace (HookOsiris m) @ [OsiWarn w name arity]"
    if "storyLoaded m"
    using w that
    by (simp add: Subscribe_def Let_def sig_def RegisterNodeHandler_rejected log_def HookOsiris_def)
next
  fix f
  assume "RegisterNodeHandler_func E sig = Some f \<and> (Type f = Event \<or> Type f = Call)
            \<and> (type = BeforeDeleteTrigger \<or> type = AfterDeleteTrigger)"
  then show "RegisterNodeHandler_nodeRef E sig = Inl DeleteTriggerOnEvent"
    by (intro delete_trigger_on_event [of E sig f]) (auto simp: sig_def)
qed


lemma loaded_story:
  "StoryLoaded story_env new_manager
   = new_manager\<lparr>storyLoaded := True, osirisHooked := True,
                  trace := [HookNodeVMTs, BindCallbackManager]\<rparr>"
  by (simp add: StoryLoaded_def iteration_order_def HookOsiris_def new_manager_def log_def Let_def)

lemma TextEvent_BeforeDelete:
  "RegisterNodeHandler_nodeRef story_env
     \<lparr>sig_name = ''TextEvent'', sig_arity = 1, sig_type = BeforeDeleteTrigger\<rparr>
   = Inl DeleteTriggerOnEvent"
  by (simp add: RegisterNodeHandler_nodeRef_def RegisterNodeHandler_func_def story_env_def
      story_lookup_def Let_def)

theorem Subscribe_always_succeeds_witness:
  "RegisterNodeHandler_nodeRef story_env
     \<lparr>sig_name = ''TextEvent'', sig_arity = 1, sig_type = BeforeDeleteTrigger\<rparr>
     = Inl DeleteTriggerOnEvent
   \<and> storyLoaded (StoryLoaded story_env new_manager)
   \<and> subscribers (Subscribe story_env ''TextEvent'' 1 BeforeDeleteTrigger 8
        (StoryLoaded story_env new_manager)) = [8]
   \<and> nameSubscriberRefs (Subscribe story_env ''TextEvent'' 1 BeforeDeleteTrigger 8
        (StoryLoaded story_env new_manager))
       = [(\<lparr>sig_name = ''TextEvent'', sig_arity = 1, sig_type = BeforeDeleteTrigger\<rparr>, 0)]
   \<and> nodeSubscriberRefs (Subscribe story_env ''TextEvent'' 1 BeforeDeleteTrigger 8
        (StoryLoaded story_env new_manager)) = []
   \<and> trace (Subscribe story_env ''TextEvent'' 1 BeforeDeleteTrigger 8
        (StoryLoaded story_env new_manager))
       = [HookNodeVMTs, BindCallbackManager, OsiWarn DeleteTriggerOnEvent ''TextEvent'' 1]"
proof -
  let ?m = "StoryLoaded story_env new_manager"
  have l: "storyLoaded ?m" "subscribers ?m = []" "nameSubscriberRefs ?m = []"
    "nodeSubscriberRefs ?m = []" "trace (HookOsiris ?m) = [HookNodeVMTs, BindCallbackManager]"
    unfolding loaded_story by (simp_all add: HookOsiris_def new_manager_def)
  from Subscribe_always_succeeds [where E = story_env and name = "''TextEvent''" and arity = 1
      and type = BeforeDeleteTrigger and handler = 8 and m = ?m]
    TextEvent_BeforeDelete l
  show ?thesis by simp
qed

subsection \<open>The dispatch buffer\<close>

lemma fold_Add: "fold (\<lambda>v arr. arr @ [v]) its arr = arr @ its"
  by (induction its arbitrary: arr) simp_all

lemma Enter_Inr:
  assumes "Enter its m = Inr (v, m1)"
  shows "depth m1 = depth m + 1" "depth m < length (cache m1)" "cache m1 ! depth m = v"
    "v < length (heap m1)" "heap m1 ! v = its"
  using assms
  by (auto simp: Enter_def Let_def fold_Add split: if_splits)

lemma Enter_total:
  assumes "pool_ok m"
  shows "\<exists>v m1. Enter its m = Inr (v, m1)"
  using assms
  by (auto simp: Enter_def Let_def pool_ok_def nth_append split: if_splits)

subsection \<open>The Lua stack around one handler\<close>

lemma push_args_stack:
  "push_args E as n m = (k, m') \<Longrightarrow>
     \<exists>pushed. m' = m\<lparr>stack := pushed @ stack m\<rparr> \<and> n + length pushed = k
        \<and> rev pushed = map (OsiToLua E) as"
proof (induction as arbitrary: n m)
  case Nil
  then show ?case by auto
next
  case (Cons a as)
  from Cons.prems have "push_args E as (n + 1) (m\<lparr>stack := OsiToLua E a # stack m\<rparr>) = (k, m')"
    by simp
  from Cons.IH [OF this] obtain pushed where
    p: "m' = m\<lparr>stack := pushed @ OsiToLua E a # stack m\<rparr>" "n + 1 + length pushed = k"
       "rev pushed = map (OsiToLua E) as"
    by auto
  show ?case
    by (rule exI [of _ "pushed @ [OsiToLua E a]"]) (use p in auto)
qed

lemma catch_Exception_stack:
  "stack m = extra @ base \<Longrightarrow> stack (catch_Exception (int (length base)) m) = base"
  by (simp add: catch_Exception_def lua_pop_def log_def Let_def)

lemma CallWithTraceback_cases:
  assumes "stack m = pushed @ LuaFunction func # base" "length pushed = numArgs"
  shows "case CallWithTraceback call numArgs m of
           Inl e \<Rightarrow> \<exists>h a s. call h a s = Inl e
         | Inr (CallOk, m') \<Rightarrow> stack m' = base
         | Inr (CallFailed, m') \<Rightarrow> stack m' = LuaErrorMessage # base
         | Inr (CallThrew, m') \<Rightarrow> \<exists>left. stack m' = left @ LuaFunction func # base"
proof -
  let ?m = "log (Invoked (depth m) func (rev (take numArgs (stack m)))) m"
  let ?c = "call func (rev (take numArgs (stack m))) ?m"
  from assms have d: "drop numArgs (stack m) = LuaFunction func # base" by simp
  show ?thesis
  proof (cases ?c)
    case (Inl e)
    then show ?thesis using d by (auto simp: CallWithTraceback_def Let_def)
  next
    case (Inr r)
    obtain out m' where r: "r = (out, m')" by (cases r)
    show ?thesis
    proof (cases out)
      case Returned
      with Inr r d show ?thesis by (simp add: CallWithTraceback_def Let_def)
    next
      case ScriptError
      with Inr r d show ?thesis by (simp add: CallWithTraceback_def Let_def)
    next
      case (NativeFault left)
      with Inr r d assms show ?thesis by (simp add: CallWithTraceback_def Let_def)
    qed
  qed
qed

lemma after_CallWithTraceback:
  assumes "stack m = pushed @ LuaFunction func # base" "length pushed = numArgs"
  shows "case (case CallWithTraceback call numArgs m of
                Inl e \<Rightarrow> Inl e
              | Inr (CallOk, m) \<Rightarrow> Inr m
              | Inr (CallFailed, m) \<Rightarrow> Inr (lua_pop 1 (log LuaError m))
              | Inr (CallThrew, m) \<Rightarrow> Inr (catch_Exception (int (length base)) m)) of
           Inl e \<Rightarrow> \<exists>h a s. call h a s = Inl e
         | Inr m' \<Rightarrow> stack m' = base"
proof (cases "CallWithTraceback call numArgs m")
  case (Inl e)
  with CallWithTraceback_cases [OF assms, of call] show ?thesis by simp
next
  case (Inr r)
  obtain st m' where r: "r = (st, m')" by (cases r)
  from CallWithTraceback_cases [OF assms, of call] Inr r show ?thesis
    by (cases st) (auto simp: lua_pop_def log_def intro: catch_Exception_stack)
qed

lemma RunHandler_args_stack:
  "case RunHandler_args call E func args m of
     Inl e \<Rightarrow> \<exists>h a s. call h a s = Inl e
   | Inr m' \<Rightarrow> stack m' = stack m"
proof -
  let ?m1 = "m\<lparr>stack := LuaFunction func # stack m\<rparr>"
  obtain numArgs m2 where p: "push_args E args 0 ?m1 = (numArgs, m2)"
    by (cases "push_args E args 0 ?m1")
  from push_args_stack [OF p] obtain pushed where
    s: "stack m2 = pushed @ LuaFunction func # stack m" "length pushed = numArgs"
    by auto
  from after_CallWithTraceback [OF s, of call] p show ?thesis
    by (simp add: RunHandler_args_def Let_def)
qed

lemma RunHandler_tuple_stack:
  "case RunHandler_tuple call E func tuple m of
     Inl e \<Rightarrow> \<exists>h a s. call h a s = Inl e
   | Inr m' \<Rightarrow> stack m' = stack m"
proof -
  let ?m1 = "m\<lparr>stack := LuaFunction func # stack m\<rparr>"
  let ?p = "case tuple of None \<Rightarrow> (0, ?m1) | Some items \<Rightarrow> push_args E items 0 ?m1"
  obtain numArgs m2 where p: "?p = (numArgs, m2)" by (cases ?p)
  have "\<exists>pushed. stack m2 = pushed @ LuaFunction func # stack m \<and> length pushed = numArgs"
  proof (cases tuple)
    case None
    with p show ?thesis by auto
  next
    case (Some items)
    with p have "push_args E items 0 ?m1 = (numArgs, m2)" by simp
    from push_args_stack [OF this] show ?thesis by auto
  qed
  then obtain pushed where
    s: "stack m2 = pushed @ LuaFunction func # stack m" "length pushed = numArgs"
    by auto
  from after_CallWithTraceback [OF s, of call] p show ?thesis
    by (simp add: RunHandler_tuple_def Let_def)
qed

text \<open>
  C4. Whenever \<^verbatim>\<open>RunHandler\<close> returns, for the descriptor chain and for the tuple list
  alike, the Lua stack is the stack it was called with, so of the same depth: whether
  the handler returned, raised a script error (the error value is popped), or a native
  exception escaped from the call (everything above the depth before the call is popped).
  It does not return only when the handler itself ends in a fault of the host.
\<close>

theorem RunHandler_restores_stack_depth:
  "(case RunHandler_args call E func args m of
      Inl e \<Rightarrow> \<exists>h a s. call h a s = Inl e
    | Inr m' \<Rightarrow> length (stack m') = length (stack m) \<and> stack m' = stack m)
   \<and> (case RunHandler_tuple call E func tuple m of
      Inl e \<Rightarrow> \<exists>h a s. call h a s = Inl e
    | Inr m' \<Rightarrow> length (stack m') = length (stack m) \<and> stack m' = stack m)"
  using RunHandler_args_stack [where call = call and E = E and func = func and args = args and m = m]
    RunHandler_tuple_stack [where call = call and E = E and func = func and tuple = tuple and m = m]
  by (auto split: sum.splits)

lemmas story_simps =
  story_env_def story_body_def story_lookup_def new_manager_def
  RunHandler_args_def RunHandler_tuple_def CallWithTraceback_def catch_Exception_def
  lua_pop_def log_def Let_def

lemma handler_raises_error:
  "RunHandler_args (lua_call story_env 1) story_env 2 [1, 2] (new_manager\<lparr>stack := [LuaValue 0]\<rparr>)
   = Inr (new_manager\<lparr>stack := [LuaValue 0], trace := [Invoked 0 2 [LuaValue 1, LuaValue 2], LuaError]\<rparr>)"
  by (simp add: story_simps)

lemma handler_native_fault:
  "RunHandler_args (lua_call story_env 1) story_env 3 [1, 2] (new_manager\<lparr>stack := [LuaValue 0]\<rparr>)
   = Inr (new_manager\<lparr>stack := [LuaValue 0], trace := [Invoked 0 3 [LuaValue 1, LuaValue 2], LuaError]\<rparr>)"
  by (simp add: story_simps)

lemma handler_returns:
  "RunHandler_tuple (lua_call story_env 1) story_env 4 None (new_manager\<lparr>stack := [LuaValue 0]\<rparr>)
   = Inr (new_manager\<lparr>stack := [LuaValue 0], trace := [Invoked 0 4 []]\<rparr>)"
  by (simp add: story_simps)

theorem RunHandler_restores_stack_depth_witness:
  "(\<exists>m'. RunHandler_args (lua_call story_env 1) story_env 2 [1, 2]
            (new_manager\<lparr>stack := [LuaValue 0]\<rparr>) = Inr m'
         \<and> trace m' = [Invoked 0 2 [LuaValue 1, LuaValue 2], LuaError]
         \<and> length (stack m') = 1)
   \<and> (\<exists>m'. RunHandler_args (lua_call story_env 1) story_env 3 [1, 2]
            (new_manager\<lparr>stack := [LuaValue 0]\<rparr>) = Inr m'
         \<and> trace m' = [Invoked 0 3 [LuaValue 1, LuaValue 2], LuaError]
         \<and> length (stack m') = 1)
   \<and> (\<exists>m'. RunHandler_tuple (lua_call story_env 1) story_env 4 None
            (new_manager\<lparr>stack := [LuaValue 0]\<rparr>) = Inr m'
         \<and> trace m' = [Invoked 0 4 []]
         \<and> length (stack m') = 1)"
  using RunHandler_restores_stack_depth [where call = "lua_call story_env 1" and E = story_env
      and func = 2 and args = "[1, 2]" and m = "new_manager\<lparr>stack := [LuaValue 0]\<rparr>"]
    RunHandler_restores_stack_depth [where call = "lua_call story_env 1" and E = story_env
      and func = 3 and args = "[1, 2]" and m = "new_manager\<lparr>stack := [LuaValue 0]\<rparr>"]
    RunHandler_restores_stack_depth [where call = "lua_call story_env 1" and E = story_env
      and func = 4 and tuple = None and m = "new_manager\<lparr>stack := [LuaValue 0]\<rparr>"]
    handler_raises_error handler_native_fault handler_returns
  by simp

subsection \<open>The merging flag\<close>

lemma RunHandlers_tuple_merging:
  "merging m \<Longrightarrow> RunHandlers_tuple call E nodeRef tuple m = Inr m"
  by (simp add: RunHandlers_tuple_def)

lemma merging_manager_eq:
  "merging_manager =
     \<lparr>subscribers = [7, 6],
      nameSubscriberRefs =
        [(\<lparr>sig_name = ''TextEvent'', sig_arity = 1, sig_type = BeforeTrigger\<rparr>, 0),
         (\<lparr>sig_name = ''DB_Players'', sig_arity = 1, sig_type = BeforeTrigger\<rparr>, 1)],
      nodeSubscriberRefs = [(0x2000000000000009, 0), (42, 1)],
      cache = [], depth = 0, heap = [],
      storyLoaded = True, osirisHooked = True, merging = True,
      luaAvailable = True, stack = [], trace = [HookNodeVMTs, BindCallbackManager]\<rparr>"
  by (simp add: merging_manager_def StorySetMerging_def Subscribe_def StoryLoaded_def
      iteration_order_def HookOsiris_def RegisterNodeHandler_def RegisterNodeHandler_nodeRef_def
      RegisterNodeHandler_func_def story_env_def story_lookup_def new_manager_def log_def Let_def)

text \<open>
  C1. While the story is merging, an insert into the database on node 42, which has a
  subscriber, reaches no handler: the tuple-list overload returns at once. The event with
  function identifier 9 still reaches its handler 7: the overload of \<^verbatim>\<open>RunHandlers\<close>
  for argument descriptors does not read the flag.
\<close>

theorem args_dispatch_while_merging:
  "merging merging_manager
   \<and> equal_range 42 (nodeSubscriberRefs merging_manager) = [1]
   \<and> InsertPreHook (lua_call story_env 1) story_env 42 (Some [3]) False merging_manager
       = Inr merging_manager
   \<and> equal_range 0x2000000000000009 (nodeSubscriberRefs merging_manager) = [0]
   \<and> EventPreHook (lua_call story_env 1) story_env 9 [3] merging_manager
       = Inr (merging_manager
               \<lparr>cache := [0], heap := [[0]],
                trace := trace merging_manager @ [Invoked 1 7 [LuaValue 3]]\<rparr>)"
  by (simp add: merging_manager_eq InsertPreHook_def EventPreHook_def RunHandlers_tuple_def
      RunHandlers_args_def equal_range_def range_order_def Enter_def Exit_def story_simps)

subsection \<open>The order of the container\<close>

lemma set_range_order [simp]: "set (range_order E vs) = set vs"
  by (simp add: range_order_def)

lemma mset_range_order [simp]: "mset (range_order E vs) = mset vs"
  by (simp add: range_order_def)

lemma range_order_Nil [simp]: "range_order E vs = [] \<longleftrightarrow> vs = []"
  using set_range_order [of E vs] by (metis set_empty)

lemma Pair_equal_range: "map (Pair k) (equal_range k xs) = filter (\<lambda>p. fst p = k) xs"
  by (induction xs) (auto simp: equal_range_def)

lemma set_iteration_order [simp]: "set (iteration_order E xs) = set xs"
proof -
  have "set (map (Pair k) (range_order E (equal_range k xs))) = {p \<in> set xs. fst p = k}" for k
  proof -
    have "set (map (Pair k) (range_order E (equal_range k xs)))
        = set (map (Pair k) (equal_range k xs))"
      by simp
    also have "\<dots> = {p \<in> set xs. fst p = k}"
      unfolding Pair_equal_range by simp
    finally show ?thesis .
  qed
  then have "set (iteration_order E xs) = (\<Union>k \<in> fst ` set xs. {p \<in> set xs. fst p = k})"
    unfolding iteration_order_def set_concat by simp
  also have "\<dots> = set xs" by auto
  finally show ?thesis .
qed

subsection \<open>Dispatch leaves a well-formed manager\<close>

lemma frame_refl: "manager_ok m \<Longrightarrow> frame m m"
  by (simp add: frame_def)

lemma new_events_refl [simp]: "new_events m m = []"
  by (simp add: new_events_def)

lemma new_events_trace: "prefix (trace m) (trace m') \<Longrightarrow> trace m' = trace m @ new_events m m'"
  by (auto simp: new_events_def prefix_def)

lemma new_events_append:
  "prefix (trace a) (trace b) \<Longrightarrow> prefix (trace b) (trace c) \<Longrightarrow>
     new_events a c = new_events a b @ new_events b c"
  by (auto simp: new_events_def prefix_def)

lemma frame_new_events:
  "frame a b \<Longrightarrow> frame b c \<Longrightarrow> new_events a c = new_events a b @ new_events b c"
  by (rule new_events_append) (simp_all add: frame_def)

lemma frame_trans:
  assumes "frame a b" "frame b c"
  shows "frame a c"
proof -
  from assms have ok: "manager_ok a" "manager_ok c" and d: "depth b = depth a" "depth c = depth a"
    by (simp_all add: frame_def)
  from assms have pc: "prefix (cache a) (cache b)" "prefix (cache b) (cache c)"
    by (simp_all add: frame_def)
  have h: "heap c ! (cache a ! j) = heap a ! (cache a ! j)" if "j < depth a" for j
  proof -
    from ok(1) that have "j < length (cache a)" by (simp add: manager_ok_def pool_ok_def)
    with pc(1) have "cache b ! j = cache a ! j" by (auto simp: prefix_def nth_append)
    moreover from assms that d have "heap c ! (cache b ! j) = heap b ! (cache b ! j)"
      by (simp add: frame_def)
    moreover from assms that have "heap b ! (cache a ! j) = heap a ! (cache a ! j)"
      by (simp add: frame_def)
    ultimately show ?thesis by simp
  qed
  from assms have "prefix (subscribers a) (subscribers c)"
    "prefix (nodeSubscriberRefs a) (nodeSubscriberRefs c)" "prefix (cache a) (cache c)"
    "prefix (trace a) (trace c)"
    "stack c = stack a" "luaAvailable c = luaAvailable a" "merging c = merging a"
    "storyLoaded c = storyLoaded a"
    by (auto simp: frame_def intro: prefix_order.trans)
  with ok d h show ?thesis by (simp add: frame_def)
qed

lemma later_refl: "manager_ok m \<Longrightarrow> later m m"
  by (simp add: later_def frame_refl)

lemma later_trans:
  assumes "later a b" "later b c"
  shows "later a c"
proof -
  from assms have f: "frame a b" "frame b c" by (simp_all add: later_def)
  then have d: "depth b = depth a" by (simp add: frame_def)
  from assms d frame_new_events [OF f] frame_trans [OF f] show ?thesis
    by (simp add: later_def)
qed

lemma from_depth_mono: "from_depth d e \<Longrightarrow> d' \<le> d \<Longrightarrow> from_depth d' e"
  by (cases e) simp_all

lemma list_all_from_depth_mono:
  "list_all (from_depth d) evs \<Longrightarrow> d' \<le> d \<Longrightarrow> list_all (from_depth d') evs"
  by (induction evs) (auto intro: from_depth_mono)

lemma invoked_at_deeper: "from_depth (Suc d) e \<Longrightarrow> invoked_at d e = []"
  by (cases e) simp_all

lemma handlers_invoked_at_deeper:
  "list_all (from_depth (Suc d)) evs \<Longrightarrow> handlers_invoked_at d evs = []"
  by (induction evs) (simp_all add: handlers_invoked_at_def invoked_at_deeper)

lemma handlers_invoked_at_append [simp]:
  "handlers_invoked_at d (xs @ ys) = handlers_invoked_at d xs @ handlers_invoked_at d ys"
  by (simp add: handlers_invoked_at_def)

lemma handlers_invoked_at_Nil [simp]: "handlers_invoked_at d [] = []"
  by (simp add: handlers_invoked_at_def)


lemma Subscribe_fields [simp]:
  "subscribers (Subscribe E n a t h m) = subscribers m @ [h]"
  "nameSubscriberRefs (Subscribe E n a t h m)
     = nameSubscriberRefs m @ [(\<lparr>sig_name = n, sig_arity = a, sig_type = t\<rparr>, length (subscribers m))]"
  "cache (Subscribe E n a t h m) = cache m"
  "depth (Subscribe E n a t h m) = depth m"
  "heap (Subscribe E n a t h m) = heap m"
  "storyLoaded (Subscribe E n a t h m) = storyLoaded m"
  "merging (Subscribe E n a t h m) = merging m"
  "luaAvailable (Subscribe E n a t h m) = luaAvailable m"
  "stack (Subscribe E n a t h m) = stack m"
  by (simp_all add: Subscribe_def Let_def)

lemma Subscribe_nodeSubscriberRefs:
  "nodeSubscriberRefs (Subscribe E n a t h m)
     = nodeSubscriberRefs m @
       (if storyLoaded m
        then (case RegisterNodeHandler_nodeRef E \<lparr>sig_name = n, sig_arity = a, sig_type = t\<rparr> of
                Inl w \<Rightarrow> []
              | Inr nodeRef \<Rightarrow> [(nodeRef, length (subscribers m))])
        else [])"
  by (simp add: Subscribe_def Let_def RegisterNodeHandler_def log_def split: sum.splits)

lemma Subscribe_trace:
  "\<exists>evs. trace (Subscribe E n a t h m) = trace m @ evs \<and> list_all (from_depth b) evs"
  by (simp add: Subscribe_def Let_def RegisterNodeHandler_def HookOsiris_def log_def
      split: sum.splits)

lemma new_node_entry_valid:
  "p \<in> set (if b then (case x of Inl w \<Rightarrow> [] | Inr nodeRef \<Rightarrow> [(nodeRef, k)]) else [])
     \<Longrightarrow> snd p < Suc k"
  by (cases x; cases b; simp)

lemma Subscribe_indices_valid:
  assumes "indices_valid m"
  shows "indices_valid (Subscribe E n a t h m)"
proof -
  let ?m = "Subscribe E n a t h m"
  have 1: "snd p < length (subscribers ?m)" if "p \<in> set (nameSubscriberRefs ?m)" for p
    using that assms by (auto simp: indices_valid_def less_SucI)
  have 2: "snd p < length (subscribers ?m)" if "p \<in> set (nodeSubscriberRefs ?m)" for p
  proof -
    from that consider "p \<in> set (nodeSubscriberRefs m)"
      | "p \<in> set (if storyLoaded m
          then (case RegisterNodeHandler_nodeRef E \<lparr>sig_name = n, sig_arity = a, sig_type = t\<rparr> of
                  Inl w \<Rightarrow> []
                | Inr nodeRef \<Rightarrow> [(nodeRef, length (subscribers m))])
          else [])"
      unfolding Subscribe_nodeSubscriberRefs set_append by blast
    then show ?thesis
    proof cases
      case 1
      with assms show ?thesis by (auto simp: indices_valid_def less_SucI)
    next
      case 2
      from new_node_entry_valid [OF this] show ?thesis by simp
    qed
  qed
  from 1 2 show ?thesis unfolding indices_valid_def by blast
qed

lemma Subscribe_later:
  assumes "manager_ok m"
  shows "later m (Subscribe E n a t h m)"
proof -
  let ?m = "Subscribe E n a t h m"
  from assms have "pool_ok ?m" by (simp add: manager_ok_def pool_ok_def)
  with assms have ok: "manager_ok ?m" by (simp add: manager_ok_def Subscribe_indices_valid)
  from Subscribe_trace [of E n a t h m "Suc (depth m)"] obtain evs where
    t: "trace ?m = trace m @ evs" "list_all (from_depth (Suc (depth m))) evs" by blast
  have f: "frame m ?m"
    using assms ok t(1) by (simp add: frame_def Subscribe_nodeSubscriberRefs)
  from t have "list_all (from_depth (Suc (depth m))) (new_events m ?m)"
    by (simp add: new_events_def)
  with f show ?thesis by (simp add: later_def)
qed


lemma Enter_reuse:
  assumes "depth m < length (cache m)" "cache m ! depth m < length (heap m)"
  shows "Enter its m
    = Inr (cache m ! depth m,
           m\<lparr>heap := (heap m)[cache m ! depth m := its], depth := Suc (depth m)\<rparr>)"
  using assms by (simp add: Enter_def Let_def fold_Add)

lemma Enter_alloc:
  assumes "depth m = length (cache m)"
  shows "Enter its m
    = Inr (length (heap m),
           m\<lparr>cache := cache m @ [length (heap m)], heap := heap m @ [its],
              depth := Suc (depth m)\<rparr>)"
  using assms by (simp add: Enter_def Let_def fold_Add)

lemma Enter_manager_ok:
  assumes "manager_ok m"
  shows "\<exists>v m1. Enter its m = Inr (v, m1) \<and> manager_ok m1
     \<and> depth m1 = Suc (depth m)
     \<and> prefix (cache m) (cache m1)
     \<and> depth m < length (cache m1) \<and> cache m1 ! depth m = v
     \<and> heap m1 ! v = its
     \<and> (\<forall>j < depth m. heap m1 ! (cache m ! j) = heap m ! (cache m ! j))
     \<and> subscribers m1 = subscribers m
     \<and> nodeSubscriberRefs m1 = nodeSubscriberRefs m
     \<and> stack m1 = stack m \<and> luaAvailable m1 = luaAvailable m \<and> merging m1 = merging m
     \<and> storyLoaded m1 = storyLoaded m \<and> trace m1 = trace m"
proof (cases "depth m < length (cache m)")
  case True
  let ?v = "cache m ! depth m"
  let ?m1 = "m\<lparr>heap := (heap m)[?v := its], depth := Suc (depth m)\<rparr>"
  from assms True have v: "?v < length (heap m)" by (simp add: manager_ok_def pool_ok_def)
  from assms have dist: "distinct (cache m)" by (simp add: manager_ok_def pool_ok_def)
  have low: "heap ?m1 ! (cache m ! j) = heap m ! (cache m ! j)" if "j < depth m" for j
  proof -
    from that True dist have "cache m ! j \<noteq> ?v" by (simp add: nth_eq_iff_index_eq)
    then show ?thesis by simp
  qed
  from assms True have ok: "manager_ok ?m1"
    by (simp add: manager_ok_def pool_ok_def indices_valid_def)
  from Enter_reuse [OF True v, of its] ok low v True show ?thesis by simp
next
  case False
  with assms have d: "depth m = length (cache m)" by (simp add: manager_ok_def pool_ok_def)
  let ?v = "length (heap m)"
  let ?m1 = "m\<lparr>cache := cache m @ [?v], heap := heap m @ [its], depth := Suc (depth m)\<rparr>"
  from assms have b: "\<forall>a \<in> set (cache m). a < length (heap m)" and dist: "distinct (cache m)"
    by (simp_all add: manager_ok_def pool_ok_def)
  have low: "heap ?m1 ! (cache m ! j) = heap m ! (cache m ! j)" if "j < depth m" for j
  proof -
    from that d b have "cache m ! j < length (heap m)" by simp
    then show ?thesis by (simp add: nth_append)
  qed
  from b have "?v \<notin> set (cache m)" by auto
  with assms d b dist have ok: "manager_ok ?m1"
    by (auto simp: manager_ok_def pool_ok_def indices_valid_def less_SucI)
  from Enter_alloc [OF d, of its] ok low d show ?thesis by simp
qed


lemma manager_ok_stack_trace [simp]:
  "manager_ok (m\<lparr>stack := st\<rparr>) = manager_ok m"
  "manager_ok (m\<lparr>trace := tr\<rparr>) = manager_ok m"
  by (simp_all add: manager_ok_def pool_ok_def indices_valid_def)

lemma frame_wrap:
  assumes "frame m3 m4" "manager_ok s" "m3 = s\<lparr>stack := st, trace := trace s @ pre\<rparr>"
  shows "frame s (m4\<lparr>stack := stack s, trace := trace m4 @ post\<rparr>)"
    and "new_events s (m4\<lparr>stack := stack s, trace := trace m4 @ post\<rparr>)
           = pre @ new_events m3 m4 @ post"
proof -
  from assms(1) have "prefix (trace m3) (trace m4)" by (simp add: frame_def)
  then obtain evs where e: "trace m4 = trace m3 @ evs" by (auto simp: prefix_def)
  then have ne: "new_events m3 m4 = evs" by (simp add: new_events_def)
  from e assms(3) have t: "trace m4 = trace s @ pre @ evs" by simp
  show "new_events s (m4\<lparr>stack := stack s, trace := trace m4 @ post\<rparr>)
           = pre @ new_events m3 m4 @ post"
    unfolding ne by (simp add: new_events_def t)
  from assms(1) have "frame (s\<lparr>stack := st, trace := trace s @ pre\<rparr>) m4"
    by (simp add: assms(3))
  with assms(2) show "frame s (m4\<lparr>stack := stack s, trace := trace m4 @ post\<rparr>)"
    by (simp add: frame_def t)
qed

lemma catch_Exception_eq:
  assumes "stack m = extra @ base" "extra \<noteq> []"
  shows "catch_Exception (int (length base)) m = m\<lparr>stack := base, trace := trace m @ [LuaError]\<rparr>"
  using assms by (simp add: catch_Exception_def lua_pop_def log_def Let_def)

lemma call_ok_Inl:
  assumes "call_ok call" "manager_ok m" "call h args m = Inl e"
  shows "e = StackOverflow"
proof -
  from assms(1) have "manager_ok m \<longrightarrow>
      (case call h args m of Inl e \<Rightarrow> e = StackOverflow | Inr (out, m') \<Rightarrow> later m m')"
    unfolding call_ok_def by blast
  with assms(2,3) show ?thesis by simp
qed

lemma call_ok_Inr:
  assumes "call_ok call" "manager_ok m" "call h args m = Inr (out, m')"
  shows "later m m'"
proof -
  from assms(1) have "manager_ok m \<longrightarrow>
      (case call h args m of Inl e \<Rightarrow> e = StackOverflow | Inr (out, m') \<Rightarrow> later m m')"
    unfolding call_ok_def by blast
  with assms(2,3) show ?thesis by simp
qed

lemma run_pushed:
  assumes "call_ok call" "manager_ok s"
    "m2 = s\<lparr>stack := pushed @ LuaFunction func # stack s\<rparr>" "length pushed = numArgs"
  shows "case (case CallWithTraceback call numArgs m2 of
                Inl e \<Rightarrow> Inl e
              | Inr (CallOk, m) \<Rightarrow> Inr m
              | Inr (CallFailed, m) \<Rightarrow> Inr (lua_pop 1 (log LuaError m))
              | Inr (CallThrew, m) \<Rightarrow> Inr (catch_Exception (int (length (stack s))) m)) of
           Inl e \<Rightarrow> call_fault call e
         | Inr s' \<Rightarrow> frame s s'
             \<and> (\<exists>evs. new_events s s' = Invoked (depth s) func (rev pushed) # evs
                    \<and> list_all (from_depth (Suc (depth s))) evs)"
proof -
  let ?m3 = "s\<lparr>stack := pushed @ LuaFunction func # stack s,
               trace := trace s @ [Invoked (depth s) func (rev pushed)]\<rparr>"
  from assms have d: "drop numArgs (stack m2) = LuaFunction func # stack s"
    and a: "rev (take numArgs (stack m2)) = rev pushed"
    and l: "log (Invoked (depth m2) func (rev pushed)) m2 = ?m3"
    by (simp_all add: log_def)
  from assms(2) have ok3: "manager_ok ?m3" by simp
  show ?thesis
  proof (cases "call func (rev pushed) ?m3")
    case (Inl e)
    with assms(1) ok3 have "e = StackOverflow"
      by (rule call_ok_Inl)
    with Inl ok3 have "call_fault call e"
      unfolding call_fault_def by blast
    with Inl d a l show ?thesis by (simp add: CallWithTraceback_def Let_def)
  next
    case (Inr r)
    obtain out m4 where r: "r = (out, m4)" by (cases r)
    from Inr r have "call func (rev pushed) ?m3 = Inr (out, m4)" by simp
    with assms(1) ok3 have lt: "later ?m3 m4"
      by (rule call_ok_Inr)
    then have f: "frame ?m3 m4" and ev: "list_all (from_depth (Suc (depth s))) (new_events ?m3 m4)"
      by (simp_all add: later_def)
    have goal: "frame s s' \<and> (\<exists>evs. new_events s s' = Invoked (depth s) func (rev pushed) # evs
                    \<and> list_all (from_depth (Suc (depth s))) evs)"
      if "s' = m4\<lparr>stack := stack s, trace := trace m4 @ post\<rparr>"
        "list_all (from_depth (Suc (depth s))) post" for s' post
      using frame_wrap [OF f assms(2), where st = "pushed @ LuaFunction func # stack s"
          and pre = "[Invoked (depth s) func (rev pushed)]" and post = post] that ev
      by simp
    have e2: "lua_pop (Suc 0) (log LuaError (m4\<lparr>stack := LuaErrorMessage # stack s\<rparr>))
          = m4\<lparr>stack := stack s, trace := trace m4 @ [LuaError]\<rparr>"
      by (simp add: lua_pop_def log_def)
    have e3: "catch_Exception (int (length (stack s))) (m4\<lparr>stack := left @ stack m2\<rparr>)
          = m4\<lparr>stack := stack s, trace := trace m4 @ [LuaError]\<rparr>" for left
      using catch_Exception_eq [where m = "m4\<lparr>stack := left @ stack m2\<rparr>"
          and extra = "left @ pushed @ [LuaFunction func]" and base = "stack s"] assms(3)
      by simp
    have c: "CallWithTraceback call numArgs m2 =
        (case out of
           Returned \<Rightarrow> Inr (CallOk, m4\<lparr>stack := stack s\<rparr>)
         | ScriptError \<Rightarrow> Inr (CallFailed, m4\<lparr>stack := LuaErrorMessage # stack s\<rparr>)
         | NativeFault left \<Rightarrow> Inr (CallThrew, m4\<lparr>stack := left @ stack m2\<rparr>))"
      using Inr r d a l by (simp add: CallWithTraceback_def Let_def split: outcome.split)
    show ?thesis
    proof (cases out)
      case Returned
      from goal [of "m4\<lparr>stack := stack s\<rparr>" "[]"] show ?thesis
        unfolding c Returned by simp
    next
      case ScriptError
      from goal [of "m4\<lparr>stack := stack s, trace := trace m4 @ [LuaError]\<rparr>" "[LuaError]"]
      show ?thesis
        unfolding c ScriptError by (simp add: e2)
    next
      case (NativeFault left)
      from goal [of "m4\<lparr>stack := stack s, trace := trace m4 @ [LuaError]\<rparr>" "[LuaError]"]
      show ?thesis
        unfolding c NativeFault by (simp add: e3)
    qed
  qed
qed


lemma RunHandler_args_frame:
  assumes "call_ok call" "manager_ok s"
  shows "case RunHandler_args call E func args s of
           Inl e \<Rightarrow> call_fault call e
         | Inr s' \<Rightarrow> frame s s'
             \<and> (\<exists>a evs. new_events s s' = Invoked (depth s) func a # evs
                    \<and> list_all (from_depth (Suc (depth s))) evs)"
proof -
  let ?m1 = "s\<lparr>stack := LuaFunction func # stack s\<rparr>"
  obtain numArgs m2 where p: "push_args E args 0 ?m1 = (numArgs, m2)"
    by (cases "push_args E args 0 ?m1")
  from push_args_stack [OF p] obtain pushed where
    m2: "m2 = s\<lparr>stack := pushed @ LuaFunction func # stack s\<rparr>" "length pushed = numArgs"
    by auto
  from run_pushed [OF assms m2] p show ?thesis
    by (auto simp: RunHandler_args_def Let_def split: sum.splits)
qed

lemma RunHandler_tuple_frame:
  assumes "call_ok call" "manager_ok s"
  shows "case RunHandler_tuple call E func tuple s of
           Inl e \<Rightarrow> call_fault call e
         | Inr s' \<Rightarrow> frame s s'
             \<and> (\<exists>a evs. new_events s s' = Invoked (depth s) func a # evs
                    \<and> list_all (from_depth (Suc (depth s))) evs)"
proof -
  let ?m1 = "s\<lparr>stack := LuaFunction func # stack s\<rparr>"
  let ?p = "case tuple of None \<Rightarrow> (0, ?m1) | Some items \<Rightarrow> push_args E items 0 ?m1"
  obtain numArgs m2 where p: "?p = (numArgs, m2)" by (cases ?p)
  have "\<exists>pushed. m2 = s\<lparr>stack := pushed @ LuaFunction func # stack s\<rparr>
          \<and> length pushed = numArgs"
  proof (cases tuple)
    case None
    with p show ?thesis by auto
  next
    case (Some items)
    with p have "push_args E items 0 ?m1 = (numArgs, m2)" by simp
    from push_args_stack [OF this] show ?thesis by auto
  qed
  then obtain pushed where
    m2: "m2 = s\<lparr>stack := pushed @ LuaFunction func # stack s\<rparr>" "length pushed = numArgs"
    by auto
  from run_pushed [OF assms m2] p show ?thesis
    by (auto simp: RunHandler_tuple_def Let_def split: sum.splits)
qed

lemma for_indices_frame:
  assumes body: "\<And>func s. manager_ok s \<Longrightarrow>
      (case body func s of
         Inl e \<Rightarrow> F e
       | Inr s' \<Rightarrow> frame s s'
           \<and> (\<exists>a evs. new_events s s' = Invoked (depth s) func a # evs
                  \<and> list_all (from_depth (Suc (depth s))) evs))"
    and m1: "depth m1 = Suc d" "cache m1 ! d = v" "heap m1 ! v = its"
      "\<And>x. x \<in> set its \<Longrightarrow> x < length (subscribers m1)"
    and s: "frame m1 s" "i + k = length its"
  shows "case for_indices body v i k s of
           Inl e \<Rightarrow> F e
         | Inr s' \<Rightarrow> frame s s'
             \<and> list_all (from_depth (Suc d)) (new_events s s')
             \<and> handlers_invoked_at (Suc d) (new_events s s')
                 = map (\<lambda>x. subscribers m1 ! x) (drop i its)"
  using s
proof (induction k arbitrary: i s)
  case 0
  then show ?case by (simp add: frame_def frame_refl)
next
  case (Suc k)
  from Suc.prems(1) have ok: "manager_ok m1" "manager_ok s" and ds: "depth s = Suc d"
    by (simp_all add: frame_def m1(1))
  from ok(1) m1(1) have dl: "d < length (cache m1)" by (simp add: manager_ok_def pool_ok_def)
  from Suc.prems(1) have pc: "prefix (cache m1) (cache s)" by (simp add: frame_def)
  with dl m1(2) have cs: "d < length (cache s)" "cache s ! d = v"
    by (auto simp: prefix_def nth_append)
  then have "v \<in> set (cache s)" by (metis nth_mem)
  with ok(2) have vl: "v < length (heap s)" by (simp add: manager_ok_def pool_ok_def)
  from Suc.prems(1) m1(1,2) have "heap s ! v = heap m1 ! v"
    unfolding frame_def by (metis lessI)
  with m1(3) have hv: "heap s ! v = its" by simp
  from Suc.prems(2) have il: "i < length its" by simp
  let ?x = "its ! i"
  from il m1(4) have x1: "?x < length (subscribers m1)" by simp
  from Suc.prems(1) have ps: "prefix (subscribers m1) (subscribers s)" by (simp add: frame_def)
  with x1 have xs: "?x < length (subscribers s)" "subscribers s ! ?x = subscribers m1 ! ?x"
    by (auto simp: prefix_def nth_append)
  let ?f = "subscribers m1 ! ?x"
  have unfold: "for_indices body v i (Suc k) s =
      (case body ?f s of Inl e \<Rightarrow> Inl e | Inr s1 \<Rightarrow> for_indices body v (i + 1) k s1)"
    using vl hv il xs by (simp add: Let_def)
  show ?case
  proof (cases "body ?f s")
    case (Inl e)
    with body [OF ok(2), of ?f] unfold show ?thesis by simp
  next
    case (Inr s1)
    with body [OF ok(2), of ?f] obtain a evs where
      f1: "frame s s1" and e1: "new_events s s1 = Invoked (Suc d) ?f a # evs"
        "list_all (from_depth (Suc (Suc d))) evs"
      by (auto simp: ds)
    from frame_trans [OF Suc.prems(1) f1] have fm: "frame m1 s1" .
    from Suc.prems(2) have "Suc i + k = length its" by simp
    note IH = Suc.IH [OF fm this]
    show ?thesis
    proof (cases "for_indices body v (Suc i) k s1")
      case (Inl e)
      with IH unfold Inr show ?thesis by simp
    next
      case r: (Inr s')
      with IH have f2: "frame s1 s'" and e2: "list_all (from_depth (Suc d)) (new_events s1 s')"
        "handlers_invoked_at (Suc d) (new_events s1 s')
           = map (\<lambda>x. subscribers m1 ! x) (drop (Suc i) its)"
        by simp_all
      have ne: "new_events s s' = Invoked (Suc d) ?f a # evs @ new_events s1 s'"
        using frame_new_events [OF f1 f2] e1(1) by simp
      have "list_all (from_depth (Suc d)) evs"
        using e1(2) by (rule list_all_from_depth_mono) simp
      with e2(1) have la: "list_all (from_depth (Suc d)) (new_events s s')"
        by (simp add: ne)
      have "handlers_invoked_at (Suc d) evs = []"
        using e1(2) by (rule handlers_invoked_at_deeper)
      then have "handlers_invoked_at (Suc d) (new_events s s')
           = ?f # map (\<lambda>x. subscribers m1 ! x) (drop (Suc i) its)"
        unfolding ne using e2(2) by (simp add: handlers_invoked_at_def)
      also have "\<dots> = map (\<lambda>x. subscribers m1 ! x) (drop i its)"
        using il by (simp add: Cons_nth_drop_Suc [symmetric])
      finally have hi: "handlers_invoked_at (Suc d) (new_events s s')
           = map (\<lambda>x. subscribers m1 ! x) (drop i its)" .
      from frame_trans [OF f1 f2] la hi unfold Inr r show ?thesis by simp
    qed
  qed
qed


lemma equal_range_valid:
  assumes "manager_ok m" "x \<in> set (range_order E (equal_range r (nodeSubscriberRefs m)))"
  shows "x < length (subscribers m)"
  using assms by (auto simp: equal_range_def manager_ok_def indices_valid_def)

lemma Exit_frame:
  assumes ok: "manager_ok m"
    and m1: "manager_ok m1" "depth m1 = Suc (depth m)" "prefix (cache m) (cache m1)"
      "depth m < length (cache m1)" "cache m1 ! depth m = v"
      "\<forall>j < depth m. heap m1 ! (cache m ! j) = heap m ! (cache m ! j)"
      "subscribers m1 = subscribers m" "nodeSubscriberRefs m1 = nodeSubscriberRefs m"
      "stack m1 = stack m" "luaAvailable m1 = luaAvailable m" "merging m1 = merging m"
      "storyLoaded m1 = storyLoaded m" "trace m1 = trace m"
    and f: "frame m1 m2"
  shows "Exit v m2 = Inr (m2\<lparr>depth := depth m\<rparr>)"
    and "frame m (m2\<lparr>depth := depth m\<rparr>)"
    and "new_events m (m2\<lparr>depth := depth m\<rparr>) = new_events m1 m2"
proof -
  from f have d2: "depth m2 = Suc (depth m)" and pc: "prefix (cache m1) (cache m2)"
    and ok2: "manager_ok m2"
    by (simp_all add: frame_def m1(2))
  from pc m1(4,5) have c2: "depth m < length (cache m2)" "cache m2 ! depth m = v"
    by (auto simp: prefix_def nth_append)
  with d2 show "Exit v m2 = Inr (m2\<lparr>depth := depth m\<rparr>)"
    by (simp add: Exit_def)
  show "new_events m (m2\<lparr>depth := depth m\<rparr>) = new_events m1 m2"
    by (simp add: new_events_def m1(13))
  from ok2 c2(1) have ok': "manager_ok (m2\<lparr>depth := depth m\<rparr>)"
    by (simp add: manager_ok_def pool_ok_def indices_valid_def)
  have low: "heap m2 ! (cache m ! j) = heap m ! (cache m ! j)" if "j < depth m" for j
  proof -
    from ok that have "j < length (cache m)" by (simp add: manager_ok_def pool_ok_def)
    with m1(3) have "cache m1 ! j = cache m ! j" by (auto simp: prefix_def nth_append)
    moreover from f that m1(2) have "heap m2 ! (cache m1 ! j) = heap m1 ! (cache m1 ! j)"
      by (simp add: frame_def)
    moreover from m1(6) that have "heap m1 ! (cache m ! j) = heap m ! (cache m ! j)" by simp
    ultimately show ?thesis by simp
  qed
  from f m1 have "prefix (cache m) (cache m2)" "prefix (subscribers m) (subscribers m2)"
    "prefix (nodeSubscriberRefs m) (nodeSubscriberRefs m2)" "prefix (trace m) (trace m2)"
    "stack m2 = stack m" "luaAvailable m2 = luaAvailable m" "merging m2 = merging m"
    "storyLoaded m2 = storyLoaded m"
    by (auto simp: frame_def intro: prefix_order.trans)
  with ok ok' low show "frame m (m2\<lparr>depth := depth m\<rparr>)"
    by (simp add: frame_def)
qed

lemma dispatch_frame:
  assumes body: "\<And>func s. manager_ok s \<Longrightarrow>
      (case body func s of
         Inl e \<Rightarrow> F e
       | Inr s' \<Rightarrow> frame s s'
           \<and> (\<exists>a evs. new_events s s' = Invoked (depth s) func a # evs
                  \<and> list_all (from_depth (Suc (depth s))) evs))"
    and ok: "manager_ok m"
    and its: "\<And>x. x \<in> set its \<Longrightarrow> x < length (subscribers m)"
  shows "case (case Enter its m of
                 Inl e \<Rightarrow> Inl e
               | Inr (indices, m1) \<Rightarrow>
                   (case for_indices body indices 0 (length (heap m1 ! indices)) m1 of
                      Inl e \<Rightarrow> Inl e
                    | Inr m2 \<Rightarrow> Exit indices m2)) of
           Inl e \<Rightarrow> F e
         | Inr m' \<Rightarrow> later m m'
             \<and> handlers_invoked_at (Suc (depth m)) (new_events m m')
                 = map (\<lambda>x. subscribers m ! x) its"
proof -
  from Enter_manager_ok [OF ok, of its] obtain v m1 where
    en: "Enter its m = Inr (v, m1)"
    and m1: "manager_ok m1" "depth m1 = Suc (depth m)" "prefix (cache m) (cache m1)"
      "depth m < length (cache m1)" "cache m1 ! depth m = v"
      "\<forall>j < depth m. heap m1 ! (cache m ! j) = heap m ! (cache m ! j)"
      "subscribers m1 = subscribers m" "nodeSubscriberRefs m1 = nodeSubscriberRefs m"
      "stack m1 = stack m" "luaAvailable m1 = luaAvailable m" "merging m1 = merging m"
      "storyLoaded m1 = storyLoaded m" "trace m1 = trace m"
    and hv: "heap m1 ! v = its"
    by blast
  have its1: "x < length (subscribers m1)" if "x \<in> set its" for x
    using its [OF that] m1(7) by simp
  have loop: "case for_indices body v 0 (length its) m1 of
           Inl e \<Rightarrow> F e
         | Inr s' \<Rightarrow> frame m1 s'
             \<and> list_all (from_depth (Suc (depth m))) (new_events m1 s')
             \<and> handlers_invoked_at (Suc (depth m)) (new_events m1 s')
                 = map (\<lambda>x. subscribers m1 ! x) (drop 0 its)"
    by (rule for_indices_frame [OF body m1(2) m1(5) hv its1 frame_refl [OF m1(1)]]) simp_all
  show ?thesis
  proof (cases "for_indices body v 0 (length its) m1")
    case (Inl e)
    with loop en hv show ?thesis by simp
  next
    case (Inr m2)
    with loop have f: "frame m1 m2"
      and ev: "list_all (from_depth (Suc (depth m))) (new_events m1 m2)"
        "handlers_invoked_at (Suc (depth m)) (new_events m1 m2) = map (\<lambda>x. subscribers m ! x) its"
      by (simp_all add: m1(7))
    note ex = Exit_frame [OF ok m1 f]
    from ex ev have "later m (m2\<lparr>depth := depth m\<rparr>)
        \<and> handlers_invoked_at (Suc (depth m)) (new_events m (m2\<lparr>depth := depth m\<rparr>))
            = map (\<lambda>x. subscribers m ! x) its"
      by (simp add: later_def)
    with en hv Inr ex(1) show ?thesis by simp
  qed
qed


lemma RunHandlers_args_frame:
  assumes "call_ok call" "manager_ok m"
  shows "case RunHandlers_args call E nodeRef args m of
           Inl e \<Rightarrow> call_fault call e
         | Inr m' \<Rightarrow> later m m'
             \<and> handlers_invoked_at (Suc (depth m)) (new_events m m')
                 = (if luaAvailable m
                    then map (\<lambda>x. subscribers m ! x)
                           (range_order E (equal_range nodeRef (nodeSubscriberRefs m)))
                    else [])"
proof (cases "range_order E (equal_range nodeRef (nodeSubscriberRefs m)) \<noteq> [] \<and> luaAvailable m")
  case True
  have "case (case Enter (range_order E (equal_range nodeRef (nodeSubscriberRefs m))) m of
                 Inl e \<Rightarrow> Inl e
               | Inr (indices, m1) \<Rightarrow>
                   (case for_indices (\<lambda>func. RunHandler_args call E func args) indices 0
                           (length (heap m1 ! indices)) m1 of
                      Inl e \<Rightarrow> Inl e
                    | Inr m2 \<Rightarrow> Exit indices m2)) of
           Inl e \<Rightarrow> call_fault call e
         | Inr m' \<Rightarrow> later m m'
             \<and> handlers_invoked_at (Suc (depth m)) (new_events m m')
                 = map (\<lambda>x. subscribers m ! x)
                     (range_order E (equal_range nodeRef (nodeSubscriberRefs m)))"
    by (rule dispatch_frame [OF RunHandler_args_frame [OF assms(1)] assms(2)
          equal_range_valid [OF assms(2)]])
  with True show ?thesis by (simp add: RunHandlers_args_def Let_def)
next
  case False
  with assms(2) show ?thesis
    by (auto simp: RunHandlers_args_def Let_def later_refl)
qed

lemma RunHandlers_tuple_frame:
  assumes "call_ok call" "manager_ok m"
  shows "case RunHandlers_tuple call E nodeRef tuple m of
           Inl e \<Rightarrow> call_fault call e
         | Inr m' \<Rightarrow> later m m'
             \<and> handlers_invoked_at (Suc (depth m)) (new_events m m')
                 = (if luaAvailable m \<and> \<not> merging m
                    then map (\<lambda>x. subscribers m ! x)
                           (range_order E (equal_range nodeRef (nodeSubscriberRefs m)))
                    else [])"
proof (cases "\<not> merging m \<and> range_order E (equal_range nodeRef (nodeSubscriberRefs m)) \<noteq> []
    \<and> luaAvailable m")
  case True
  have "case (case Enter (range_order E (equal_range nodeRef (nodeSubscriberRefs m))) m of
                 Inl e \<Rightarrow> Inl e
               | Inr (indices, m1) \<Rightarrow>
                   (case for_indices (\<lambda>func. RunHandler_tuple call E func tuple) indices 0
                           (length (heap m1 ! indices)) m1 of
                      Inl e \<Rightarrow> Inl e
                    | Inr m2 \<Rightarrow> Exit indices m2)) of
           Inl e \<Rightarrow> call_fault call e
         | Inr m' \<Rightarrow> later m m'
             \<and> handlers_invoked_at (Suc (depth m)) (new_events m m')
                 = map (\<lambda>x. subscribers m ! x)
                     (range_order E (equal_range nodeRef (nodeSubscriberRefs m)))"
    by (rule dispatch_frame [OF RunHandler_tuple_frame [OF assms(1)] assms(2)
          equal_range_valid [OF assms(2)]])
  with True show ?thesis by (simp add: RunHandlers_tuple_def Let_def)
next
  case False
  with assms(2) show ?thesis
    by (auto simp: RunHandlers_tuple_def Let_def later_refl)
qed

lemma RunHandlers_args_later:
  assumes "call_ok call" "manager_ok m"
  shows "case RunHandlers_args call E nodeRef args m of
           Inl e \<Rightarrow> e = StackOverflow | Inr m' \<Rightarrow> later m m'"
  using RunHandlers_args_frame [OF assms, where E = E and nodeRef = nodeRef and args = args]
  by (simp add: call_fault_def split: sum.splits)

lemma RunHandlers_tuple_later:
  assumes "call_ok call" "manager_ok m"
  shows "case RunHandlers_tuple call E nodeRef tuple m of
           Inl e \<Rightarrow> e = StackOverflow | Inr m' \<Rightarrow> later m m'"
  using RunHandlers_tuple_frame [OF assms, where E = E and nodeRef = nodeRef and tuple = tuple]
  by (simp add: call_fault_def split: sum.splits)

lemma run_hook_later:
  assumes "call_ok call" "manager_ok m"
  shows "case run_hook call E h m of Inl e \<Rightarrow> e = StackOverflow | Inr m' \<Rightarrow> later m m'"
  by (cases h)
     (simp_all add: InsertPreHook_def InsertPostHook_def CallQueryPreHook_def
        CallQueryPostHook_def CallPreHook_def CallPostHook_def EventPreHook_def
        EventPostHook_def Let_def RunHandlers_args_later [OF assms]
        RunHandlers_tuple_later [OF assms])

lemma run_action_later:
  assumes "call_ok call" "manager_ok m"
  shows "case run_action call E a m of Inl e \<Rightarrow> e = StackOverflow | Inr m' \<Rightarrow> later m m'"
  by (cases a) (simp_all add: run_hook_later [OF assms] Subscribe_later [OF assms(2)])

lemma run_actions_later:
  assumes "call_ok call" "manager_ok m"
  shows "case run_actions call E as m of Inl e \<Rightarrow> e = StackOverflow | Inr m' \<Rightarrow> later m m'"
  using assms(2)
proof (induction as arbitrary: m)
  case Nil
  then show ?case by (simp add: later_refl)
next
  case (Cons a as)
  show ?case
  proof (cases "run_action call E a m")
    case (Inl e)
    with run_action_later [OF assms(1) Cons.prems, where E = E and a = a] show ?thesis by simp
  next
    case (Inr m1)
    with run_action_later [OF assms(1) Cons.prems, where E = E and a = a] have l1: "later m m1" by simp
    then have "manager_ok m1" by (simp add: later_def frame_def)
    from Cons.IH [OF this] Inr l1 show ?thesis
      by (auto split: sum.splits intro: later_trans)
  qed
qed

lemma lua_call_ok: "call_ok (lua_call E n)"
proof (induction n)
  case 0
  show ?case by (simp add: call_ok_def)
next
  case (Suc n)
  show ?case
    unfolding call_ok_def
  proof (intro allI impI)
    fix h args m
    assume ok: "manager_ok m"
    from run_actions_later [OF Suc ok, where E = E and as = "fst (handler_body E h args)"]
    show "case lua_call E (Suc n) h args m of
            Inl e \<Rightarrow> e = StackOverflow | Inr (out, m') \<Rightarrow> later m m'"
      by (simp split: sum.splits)
  qed
qed

lemma new_manager_ok: "manager_ok new_manager"
  by (simp add: manager_ok_def pool_ok_def indices_valid_def new_manager_def)

subsection \<open>Nesting in the dispatch buffer\<close>

text \<open>
  C7. \<^verbatim>\<open>Exit\<close> succeeds exactly when the depth is positive and the handle is the array
  the cache holds at \<open>depth - 1\<close>, and then only decrements the depth. With depth zero,
  or with another handle, the assertion fails. The handle \<^verbatim>\<open>Enter\<close> has just returned
  passes, and \<^verbatim>\<open>Exit\<close> restores the depth \<^verbatim>\<open>Enter\<close> found; it still passes after any
  dispatch nested in between that left the depth where it was, which is what every
  handler run by \<^verbatim>\<open>RunHandlers\<close> does. On a well-formed pool \<^verbatim>\<open>Enter\<close> always returns
  a handle.
\<close>

theorem Exit_strict_LIFO:
  "(Exit v m = Inr m' \<longleftrightarrow>
      depth m > 0 \<and> depth m - 1 < length (cache m) \<and> cache m ! (depth m - 1) = v
      \<and> m' = m\<lparr>depth := depth m - 1\<rparr>)
   \<and> (depth m = 0 \<longrightarrow> Exit v m = Inl AssertionFailed)
   \<and> (0 < depth m \<and> depth m \<le> length (cache m) \<and> cache m ! (depth m - 1) \<noteq> v
        \<longrightarrow> Exit v m = Inl AssertionFailed)
   \<and> (Enter its m = Inr (v, m1) \<longrightarrow> Exit v m1 = Inr (m1\<lparr>depth := depth m\<rparr>))
   \<and> (manager_ok m \<and> Enter its m = Inr (v, m1) \<and> frame m1 s
        \<longrightarrow> Exit v s = Inr (s\<lparr>depth := depth m\<rparr>))
   \<and> (pool_ok m \<longrightarrow> (\<exists>v m1. Enter its m = Inr (v, m1)))"
proof (intro conjI impI)
  show "Exit v m = Inr m' \<longleftrightarrow>
      depth m > 0 \<and> depth m - 1 < length (cache m) \<and> cache m ! (depth m - 1) = v
      \<and> m' = m\<lparr>depth := depth m - 1\<rparr>"
    by (auto simp: Exit_def)
  show "Exit v m = Inl AssertionFailed" if "depth m = 0"
    using that by (simp add: Exit_def)
  show "Exit v m = Inl AssertionFailed"
    if "0 < depth m \<and> depth m \<le> length (cache m) \<and> cache m ! (depth m - 1) \<noteq> v"
    using that by (auto simp: Exit_def)
  show "Exit v m1 = Inr (m1\<lparr>depth := depth m\<rparr>)" if "Enter its m = Inr (v, m1)"
    using Enter_Inr(1-3) [OF that] by (simp add: Exit_def)
  show "Exit v s = Inr (s\<lparr>depth := depth m\<rparr>)"
    if "manager_ok m \<and> Enter its m = Inr (v, m1) \<and> frame m1 s"
  proof -
    from that have en: "Enter its m = Inr (v, m1)" and f: "frame m1 s" by simp_all
    from Enter_Inr(1-3) [OF en] have e: "depth m1 = depth m + 1" "depth m < length (cache m1)"
      "cache m1 ! depth m = v" .
    from f have "depth s = depth m1" "prefix (cache m1) (cache s)" by (simp_all add: frame_def)
    with e have "depth s = depth m + 1" "depth m < length (cache s)" "cache s ! depth m = v"
      by (auto simp: prefix_def nth_append)
    then show ?thesis by (simp add: Exit_def)
  qed
  show "\<exists>v m1. Enter its m = Inr (v, m1)" if "pool_ok m"
    using that by (rule Enter_total)
qed

lemma Enter_new_manager:
  "Enter [3, 4] new_manager = Inr (0, new_manager\<lparr>cache := [0], depth := 1, heap := [[3, 4]]\<rparr>)"
  by (simp add: Enter_def new_manager_def Let_def)

theorem Exit_strict_LIFO_witness:
  "pool_ok new_manager
   \<and> Enter [3, 4] new_manager = Inr (0, new_manager\<lparr>cache := [0], depth := 1, heap := [[3, 4]]\<rparr>)
   \<and> frame (new_manager\<lparr>cache := [0], depth := 1, heap := [[3, 4]]\<rparr>)
        (new_manager\<lparr>cache := [0], depth := 1, heap := [[3, 4]]\<rparr>)
   \<and> Exit 0 (new_manager\<lparr>cache := [0], depth := 1, heap := [[3, 4]]\<rparr>)
       = Inr (new_manager\<lparr>cache := [0], depth := 0, heap := [[3, 4]]\<rparr>)
   \<and> Exit 1 (new_manager\<lparr>cache := [0], depth := 1, heap := [[3, 4]]\<rparr>) = Inl AssertionFailed
   \<and> Exit 0 new_manager = Inl AssertionFailed"
proof -
  let ?n = "new_manager\<lparr>cache := [0], depth := 1, heap := [[3, 4]]\<rparr>"
  have p: "pool_ok new_manager" by (simp add: pool_ok_def new_manager_def)
  have d: "depth new_manager = 0" by (simp add: new_manager_def)
  have "manager_ok ?n"
    by (simp add: manager_ok_def pool_ok_def indices_valid_def new_manager_def)
  then have f: "frame ?n ?n" by (rule frame_refl)
  from Exit_strict_LIFO [where v = 0 and m = new_manager and its = "[3, 4]" and ?m1.0 = ?n
      and s = ?n] Enter_new_manager new_manager_ok f d
  have a: "Exit 0 ?n = Inr (new_manager\<lparr>cache := [0], depth := 0, heap := [[3, 4]]\<rparr>)"
    by simp
  from Exit_strict_LIFO [where v = 1 and m = ?n]
  have b: "Exit 1 ?n = Inl AssertionFailed" by simp
  from Exit_strict_LIFO [where v = 0 and m = new_manager] d
  have c: "Exit 0 new_manager = Inl AssertionFailed" by simp
  from p Enter_new_manager f a b c show ?thesis by simp
qed

subsection \<open>Story loading\<close>

lemma RegisterNodeHandler_nodeSubscriberRefs:
  "nodeSubscriberRefs (RegisterNodeHandler E sig i m)
     = nodeSubscriberRefs m @ resolved_refs E [(sig, i)]"
  by (simp add: RegisterNodeHandler_def resolved_refs_def log_def split: sum.splits)

lemma resolved_refs_append [simp]:
  "resolved_refs E (xs @ ys) = resolved_refs E xs @ resolved_refs E ys"
  by (simp add: resolved_refs_def)

lemma resolved_refs_Cons:
  "resolved_refs E (x # xs) = resolved_refs E [x] @ resolved_refs E xs"
  by (simp add: resolved_refs_def)

lemma resolved_refs_Nil [simp]: "resolved_refs E [] = []"
  by (simp add: resolved_refs_def)

lemma fold_RegisterNodeHandler:
  "nodeSubscriberRefs (fold (\<lambda>it. RegisterNodeHandler E (fst it) (snd it)) xs m)
     = nodeSubscriberRefs m @ resolved_refs E xs"
  "subscribers (fold (\<lambda>it. RegisterNodeHandler E (fst it) (snd it)) xs m) = subscribers m"
  "nameSubscriberRefs (fold (\<lambda>it. RegisterNodeHandler E (fst it) (snd it)) xs m) = nameSubscriberRefs m"
  "cache (fold (\<lambda>it. RegisterNodeHandler E (fst it) (snd it)) xs m) = cache m"
  "depth (fold (\<lambda>it. RegisterNodeHandler E (fst it) (snd it)) xs m) = depth m"
  "heap (fold (\<lambda>it. RegisterNodeHandler E (fst it) (snd it)) xs m) = heap m"
  "storyLoaded (fold (\<lambda>it. RegisterNodeHandler E (fst it) (snd it)) xs m) = storyLoaded m"
  "merging (fold (\<lambda>it. RegisterNodeHandler E (fst it) (snd it)) xs m) = merging m"
  "luaAvailable (fold (\<lambda>it. RegisterNodeHandler E (fst it) (snd it)) xs m) = luaAvailable m"
  "stack (fold (\<lambda>it. RegisterNodeHandler E (fst it) (snd it)) xs m) = stack m"
proof (induction xs arbitrary: m)
  case Nil
  {
    case 1 show ?case by simp
  next
    case 2 show ?case by simp
  next
    case 3 show ?case by simp
  next
    case 4 show ?case by simp
  next
    case 5 show ?case by simp
  next
    case 6 show ?case by simp
  next
    case 7 show ?case by simp
  next
    case 8 show ?case by simp
  next
    case 9 show ?case by simp
  next
    case 10 show ?case by simp
  }
next
  case (Cons x xs)
  {
    case 1 show ?case
      using Cons.IH(1) [of "RegisterNodeHandler E (fst x) (snd x) m"]
        resolved_refs_Cons [of E x xs]
      by (simp add: RegisterNodeHandler_nodeSubscriberRefs)
  next
    case 2 show ?case by (simp add: Cons.IH)
  next
    case 3 show ?case by (simp add: Cons.IH)
  next
    case 4 show ?case by (simp add: Cons.IH)
  next
    case 5 show ?case by (simp add: Cons.IH)
  next
    case 6 show ?case by (simp add: Cons.IH)
  next
    case 7 show ?case by (simp add: Cons.IH)
  next
    case 8 show ?case by (simp add: Cons.IH)
  next
    case 9 show ?case by (simp add: Cons.IH)
  next
    case 10 show ?case by (simp add: Cons.IH)
  }
qed

lemma StoryLoaded_fields [simp]:
  "subscribers (StoryLoaded E m) = subscribers m"
  "nameSubscriberRefs (StoryLoaded E m) = nameSubscriberRefs m"
  "cache (StoryLoaded E m) = cache m"
  "depth (StoryLoaded E m) = depth m"
  "heap (StoryLoaded E m) = heap m"
  "storyLoaded (StoryLoaded E m)"
  "merging (StoryLoaded E m) = merging m"
  "luaAvailable (StoryLoaded E m) = luaAvailable m"
  "stack (StoryLoaded E m) = stack m"
  by (simp_all add: StoryLoaded_def Let_def fold_RegisterNodeHandler)

lemma StoryLoaded_nodeSubscriberRefs:
  "nodeSubscriberRefs (StoryLoaded E m) = resolved_refs E (iteration_order E (nameSubscriberRefs m))"
  by (simp add: StoryLoaded_def Let_def fold_RegisterNodeHandler)

lemma snd_resolved_refs:
  "p \<in> set (resolved_refs E names) \<Longrightarrow> snd p \<in> snd ` set names"
proof (induction names)
  case Nil
  then show ?case by simp
next
  case (Cons x xs)
  from Cons.prems have "p \<in> set (resolved_refs E [x]) \<or> p \<in> set (resolved_refs E xs)"
    by (subst (asm) resolved_refs_Cons) simp
  then show ?case
  proof
    assume "p \<in> set (resolved_refs E [x])"
    then have "snd p = snd x"
      by (cases "RegisterNodeHandler_nodeRef E (fst x)") (simp_all add: resolved_refs_def)
    then show ?thesis by simp
  next
    assume "p \<in> set (resolved_refs E xs)"
    from Cons.IH [OF this] show ?thesis by simp
  qed
qed

lemma StoryLoaded_manager_ok:
  assumes "manager_ok m"
  shows "manager_ok (StoryLoaded E m)"
proof -
  have "snd p < length (subscribers m)"
    if "p \<in> set (resolved_refs E (iteration_order E (nameSubscriberRefs m)))" for p
    using snd_resolved_refs [OF that] assms by (auto simp: manager_ok_def indices_valid_def)
  with assms show ?thesis
    by (simp add: manager_ok_def pool_ok_def indices_valid_def StoryLoaded_nodeSubscriberRefs)
qed

lemma StorySetMerging_manager_ok:
  "manager_ok m \<Longrightarrow> manager_ok (StorySetMerging b m)"
  by (simp add: manager_ok_def pool_ok_def indices_valid_def StorySetMerging_def)

lemma run_api_manager_ok:
  assumes "manager_ok m"
  shows "case run_api E n c m of Inl e \<Rightarrow> e = StackOverflow | Inr m' \<Rightarrow> manager_ok m'"
proof (cases c)
  case (ApiSubscribe name arity type handler)
  from Subscribe_later [OF assms, of E name arity type handler] show ?thesis
    by (simp add: ApiSubscribe later_def frame_def)
next
  case ApiStoryLoaded
  with assms show ?thesis by (simp add: StoryLoaded_manager_ok)
next
  case (ApiStorySetMerging b)
  with assms show ?thesis by (simp add: StorySetMerging_manager_ok)
next
  case (ApiHook h)
  from run_hook_later [OF lua_call_ok assms, of E n E h] show ?thesis
    by (simp add: ApiHook later_def frame_def split: sum.splits)
qed

lemma run_api_calls_manager_ok:
  assumes "manager_ok m"
  shows "case run_api_calls E n cs m of Inl e \<Rightarrow> e = StackOverflow | Inr m' \<Rightarrow> manager_ok m'"
  using assms
proof (induction cs arbitrary: m)
  case Nil
  then show ?case by simp
next
  case (Cons c cs)
  show ?case
  proof (cases "run_api E n c m")
    case (Inl e)
    with run_api_manager_ok [OF Cons.prems, of E n c] show ?thesis by simp
  next
    case (Inr m1)
    with run_api_manager_ok [OF Cons.prems, of E n c] have "manager_ok m1" by simp
    from Cons.IH [OF this] Inr show ?thesis by simp
  qed
qed

text \<open>
  C10. From a manager as constructed, whatever calls arrive and whatever the handlers
  do, every handler index stored in the name-based or in the node-based map stays below
  the length of \<^verbatim>\<open>subscribers_\<close>; and no sequence of calls ends in a read out of bounds
  (of \<^verbatim>\<open>subscribers_\<close>, of the cache or of a snapshot) or in a failed assertion: the one
  fault left is the overflow of the host's stack by handlers nested too deep.
\<close>

theorem stored_indices_in_bounds:
  assumes "subscribers m0 = []" "nameSubscriberRefs m0 = []" "nodeSubscriberRefs m0 = []"
    "cache m0 = []" "depth m0 = 0"
  shows "case run_api_calls E n calls m0 of
           Inl e \<Rightarrow> e = StackOverflow
         | Inr m \<Rightarrow>
             (\<forall>p \<in> set (nameSubscriberRefs m). snd p < length (subscribers m))
             \<and> (\<forall>p \<in> set (nodeSubscriberRefs m). snd p < length (subscribers m))"
proof -
  from assms have "manager_ok m0" by (simp add: manager_ok_def pool_ok_def indices_valid_def)
  from run_api_calls_manager_ok [OF this, of E n calls] show ?thesis
    by (simp add: manager_ok_def indices_valid_def split: sum.splits)
qed


lemmas run_simps =
  Subscribe_def StoryLoaded_def StorySetMerging_def HookOsiris_def RegisterNodeHandler_def
  RegisterNodeHandler_nodeRef_def RegisterNodeHandler_func_def
  InsertPreHook_def InsertPostHook_def CallQueryPreHook_def CallQueryPostHook_def
  CallPreHook_def CallPostHook_def EventPreHook_def EventPostHook_def
  RunHandlers_tuple_def RunHandlers_args_def equal_range_def range_order_def
  iteration_order_def Enter_def Exit_def story_simps

lemma story_run:
  "run_api_calls story_env 2
     [ApiSubscribe ''DB_Players'' 1 AfterTrigger 1, ApiStoryLoaded,
      ApiHook (OnInsertPost 42 (Some [5]) False)] new_manager
   = Inr \<lparr>subscribers = [1, 4],
        nameSubscriberRefs =
          [(\<lparr>sig_name = ''DB_Players'', sig_arity = 1, sig_type = AfterTrigger\<rparr>, 0),
           (\<lparr>sig_name = ''DB_Players'', sig_arity = 1, sig_type = AfterTrigger\<rparr>, 1)],
        nodeSubscriberRefs = [(0x800000000000002A, 0), (0x800000000000002A, 1)],
        cache = [0], depth = 0, heap = [[0]], storyLoaded = True,
        osirisHooked = True, merging = False, luaAvailable = True,
        stack = [],
        trace = [HookNodeVMTs, BindCallbackManager, Invoked 1 1 [LuaValue 5]]\<rparr>"
  by (simp add: run_simps numeral_2_eq_2)

theorem stored_indices_in_bounds_witness:
  "subscribers new_manager = [] \<and> nameSubscriberRefs new_manager = []
   \<and> nodeSubscriberRefs new_manager = [] \<and> cache new_manager = [] \<and> depth new_manager = 0
   \<and> (\<exists>m. run_api_calls story_env 2
            [ApiSubscribe ''DB_Players'' 1 AfterTrigger 1, ApiStoryLoaded,
             ApiHook (OnInsertPost 42 (Some [5]) False)] new_manager = Inr m
          \<and> subscribers m = [1, 4]
          \<and> map snd (nodeSubscriberRefs m) = [0, 1]
          \<and> (\<forall>p \<in> set (nodeSubscriberRefs m). snd p < length (subscribers m)))"
proof -
  have n: "subscribers new_manager = []" "nameSubscriberRefs new_manager = []"
    "nodeSubscriberRefs new_manager = []" "cache new_manager = []" "depth new_manager = 0"
    by (simp_all add: new_manager_def)
  from stored_indices_in_bounds [OF n, where E = story_env and n = 2 and calls =
      "[ApiSubscribe ''DB_Players'' 1 AfterTrigger 1, ApiStoryLoaded,
        ApiHook (OnInsertPost 42 (Some [5]) False)]"]
  have "\<exists>m. run_api_calls story_env 2
            [ApiSubscribe ''DB_Players'' 1 AfterTrigger 1, ApiStoryLoaded,
             ApiHook (OnInsertPost 42 (Some [5]) False)] new_manager = Inr m
          \<and> subscribers m = [1, 4]
          \<and> map snd (nodeSubscriberRefs m) = [0, 1]
          \<and> (\<forall>p \<in> set (nodeSubscriberRefs m). snd p < length (subscribers m))"
    unfolding story_run by simp
  with n show ?thesis by simp
qed


subsection \<open>A firing returns\<close>

lemma RunHandlers_frame:
  assumes "call_ok call" "manager_ok m"
  shows "case RunHandlers call E nodeRef x m of
           Inl e \<Rightarrow> call_fault call e
         | Inr m' \<Rightarrow> later m m'
             \<and> handlers_invoked_at (Suc (depth m)) (new_events m m')
                 = (if dispatches x m
                    then map (\<lambda>i. subscribers m ! i)
                           (range_order E (equal_range nodeRef (nodeSubscriberRefs m)))
                    else [])"
proof (cases x)
  case (Tuple tuple)
  from RunHandlers_tuple_frame [OF assms, where E = E and nodeRef = nodeRef and tuple = tuple]
  show ?thesis by (simp only: Tuple dispatches_def gated.simps RunHandlers.simps)
next
  case (ArgumentDesc args)
  from RunHandlers_args_frame [OF assms, where E = E and nodeRef = nodeRef and args = args]
  show ?thesis by (simp only: ArgumentDesc dispatches_def gated.simps RunHandlers.simps simp_thms)
qed

lemma handlers_return_no_fault:
  assumes "handlers_return E k" "call_fault (lua_call E k) e"
  shows False
proof -
  from assms(2) obtain h args s where s: "manager_ok s" "lua_call E k h args s = Inl e"
    unfolding call_fault_def by blast
  from assms(1) s(1) obtain out s' where "lua_call E k h args s = Inr (out, s')"
    unfolding handlers_return_def by blast
  with s(2) show False by simp
qed

text \<open>
  Handlers that come to their end make every firing come to its end, whatever the number
  of handlers registered for the reference: the firing then invokes the handlers its
  iterator range held when it started, in the order of the range.
\<close>

lemma RunHandlers_returns:
  assumes "handlers_return E k" "manager_ok m"
  shows "\<exists>m'. RunHandlers (lua_call E k) E nodeRef x m = Inr m' \<and> later m m'
     \<and> handlers_invoked_at (Suc (depth m)) (new_events m m')
         = (if dispatches x m
            then map (\<lambda>i. subscribers m ! i)
                   (range_order E (equal_range nodeRef (nodeSubscriberRefs m)))
            else [])"
proof (cases "RunHandlers (lua_call E k) E nodeRef x m")
  case (Inl e)
  with RunHandlers_frame [OF lua_call_ok assms(2), where E1 = E and n1 = k and E = E
      and nodeRef = nodeRef and x = x]
  have "call_fault (lua_call E k) e" by simp
  with assms(1) show ?thesis by (rule handlers_return_no_fault [THEN FalseE])
next
  case (Inr m')
  with RunHandlers_frame [OF lua_call_ok assms(2), where E1 = E and n1 = k and E = E
      and nodeRef = nodeRef and x = x]
  show ?thesis by simp
qed

lemma run_actions_subscribes:
  "list_all is_subscribe as \<Longrightarrow> \<exists>m'. run_actions call E as m = Inr m'"
proof (induction as arbitrary: m)
  case Nil
  then show ?case by simp
next
  case (Cons a as)
  from Cons.prems obtain name arity type handler where
    a: "a = DoSubscribe name arity type handler"
    by (cases a) simp_all
  from Cons.prems have "list_all is_subscribe as" by simp
  from Cons.IH [OF this, of "Subscribe E name arity type handler m"] show ?case
    by (simp add: a)
qed

text \<open>
  Handlers that only subscribe come to their end at every level of nesting above zero.
\<close>

lemma subscribes_only_return:
  assumes "subscribes_only E"
  shows "handlers_return E (Suc k)"
  unfolding handlers_return_def
proof (intro allI impI)
  fix h args m
  from assms have "list_all is_subscribe (fst (handler_body E h args))"
    by (simp add: subscribes_only_def)
  from run_actions_subscribes [OF this, of "lua_call E k" E m]
  show "\<exists>out m'. lua_call E (Suc k) h args m = Inr (out, m')"
    by auto
qed

lemma story_subscribes_only: "subscribes_only story_env"
  by (simp add: subscribes_only_def story_env_def story_body_def)


text \<open>
  A larger allowance of nesting changes no result: what returns under one call returns
  the same under every call that extends it.
\<close>

lemma CallWithTraceback_mono:
  assumes ext: "\<And>h a s r. call h a s = Inr r \<Longrightarrow> call' h a s = Inr r"
    and run: "CallWithTraceback call numArgs m = Inr r"
  shows "CallWithTraceback call' numArgs m = Inr r"
proof (cases "\<exists>h base. drop numArgs (stack m) = LuaFunction h # base")
  case True
  then obtain h base where d: "drop numArgs (stack m) = LuaFunction h # base" by blast
  let ?c = "call h (rev (take numArgs (stack m)))
      (log (Invoked (depth m) h (rev (take numArgs (stack m)))) m)"
  from run d obtain p where p: "?c = Inr p"
    by (cases ?c) (simp_all add: CallWithTraceback_def Let_def)
  from ext [OF p] p run d show ?thesis
    by (simp add: CallWithTraceback_def Let_def)
next
  case False
  then have "CallWithTraceback call' numArgs m = CallWithTraceback call numArgs m"
    by (auto simp: CallWithTraceback_def split: list.splits lua_value.splits)
  with run show ?thesis by simp
qed

lemma RunHandler_mono:
  assumes ext: "\<And>h a s r. call h a s = Inr r \<Longrightarrow> call' h a s = Inr r"
    and run: "RunHandler call E func x m = Inr m'"
  shows "RunHandler call' E func x m = Inr m'"
proof -
  let ?m1 = "m\<lparr>stack := LuaFunction func # stack m\<rparr>"
  let ?p = "case x of
      Tuple None \<Rightarrow> (0, ?m1)
    | Tuple (Some items) \<Rightarrow> push_args E items 0 ?m1
    | ArgumentDesc args \<Rightarrow> push_args E args 0 ?m1"
  obtain numArgs m2 where p: "?p = (numArgs, m2)" by (cases ?p)
  have u: "RunHandler c E func x m =
      (case CallWithTraceback c numArgs m2 of
                Inl e \<Rightarrow> Inl e
              | Inr (CallOk, s) \<Rightarrow> Inr s
              | Inr (CallFailed, s) \<Rightarrow> Inr (lua_pop 1 (log LuaError s))
              | Inr (CallThrew, s) \<Rightarrow> Inr (catch_Exception (int (length (stack m))) s))" for c
  proof (cases x)
    case (Tuple tuple)
    with p show ?thesis
      by (cases tuple) (simp_all add: RunHandler_tuple_def Let_def)
  next
    case (ArgumentDesc args)
    with p show ?thesis by (simp add: RunHandler_args_def Let_def)
  qed
  from run obtain r where r: "CallWithTraceback call numArgs m2 = Inr r"
    unfolding u by (cases "CallWithTraceback call numArgs m2") simp_all
  from CallWithTraceback_mono [of call call', OF ext r] r run show ?thesis
    unfolding u by simp
qed

lemma for_indices_mono:
  assumes ext: "\<And>f s r. body f s = Inr r \<Longrightarrow> body' f s = Inr r"
  shows "for_indices body v i k m = Inr m' \<Longrightarrow> for_indices body' v i k m = Inr m'"
proof (induction k arbitrary: i m)
  case 0
  then show ?case by simp
next
  case (Suc k)
  from Suc.prems have b: "v < length (heap m)" "i < length (heap m ! v)"
    "heap m ! v ! i < length (subscribers m)"
    by (auto simp: Let_def split: if_splits)
  let ?f = "subscribers m ! (heap m ! v ! i)"
  from Suc.prems b obtain s where
    s: "body ?f m = Inr s" "for_indices body v (i + 1) k s = Inr m'"
    by (cases "body ?f m") (simp_all add: Let_def)
  from ext [OF s(1)] Suc.IH [OF s(2)] b show ?case by (simp add: Let_def)
qed

lemma RunHandlers_mono:
  assumes ext: "\<And>h a s r. call h a s = Inr r \<Longrightarrow> call' h a s = Inr r"
    and run: "RunHandlers call E nodeRef x m = Inr m'"
  shows "RunHandlers call' E nodeRef x m = Inr m'"
proof -
  define its where "its = range_order E (equal_range nodeRef (nodeSubscriberRefs m))"
  have u: "RunHandlers c E nodeRef x m =
     (if gated x m then Inr m
      else if its = [] then Inr m
      else if luaAvailable m
      then (case Enter its m of
              Inl e \<Rightarrow> Inl e
            | Inr (indices, m1) \<Rightarrow>
                (case for_indices (\<lambda>func. RunHandler c E func x) indices 0
                        (length (heap m1 ! indices)) m1 of
                   Inl e \<Rightarrow> Inl e
                 | Inr m2 \<Rightarrow> Exit indices m2))
      else Inr m)" for c
  proof (cases x)
    case (Tuple tuple)
    show ?thesis
      unfolding its_def Tuple RunHandlers.simps RunHandler.simps gated.simps
        RunHandlers_tuple_def Let_def
      by (rule refl)
  next
    case (ArgumentDesc args)
    show ?thesis
      unfolding its_def ArgumentDesc RunHandlers.simps RunHandler.simps gated.simps
        RunHandlers_args_def Let_def if_False
      by (rule refl)
  qed
  show ?thesis
  proof (cases "\<not> gated x m \<and> its \<noteq> [] \<and> luaAvailable m")
    case False
    then have "RunHandlers c E nodeRef x m = Inr m" for c
      unfolding u by auto
    with run show ?thesis by simp
  next
    case True
    with run obtain v m1 where en: "Enter its m = Inr (v, m1)"
      unfolding u by (cases "Enter its m") auto
    let ?loop = "\<lambda>c. for_indices (\<lambda>func. RunHandler c E func x) v 0 (length (heap m1 ! v)) m1"
    from run True en obtain m2 where l: "?loop call = Inr m2" and ex: "Exit v m2 = Inr m'"
      unfolding u by (cases "?loop call") simp_all
    have "?loop call' = Inr m2"
      by (rule for_indices_mono [OF _ l]) (rule RunHandler_mono [OF ext])
    with True en ex show ?thesis unfolding u by simp
  qed
qed

lemma run_hook_mono:
  assumes ext: "\<And>h a s r. call h a s = Inr r \<Longrightarrow> call' h a s = Inr r"
    and run: "run_hook call E hk m = Inr m'"
  shows "run_hook call' E hk m = Inr m'"
proof -
  have t: "RunHandlers_tuple c E r tuple s = RunHandlers c E r (Tuple tuple) s" for c r tuple s
    by simp
  have a: "RunHandlers_args c E r args s = RunHandlers c E r (ArgumentDesc args) s" for c r args s
    by simp
  from run show ?thesis
    unfolding InsertPreHook_def InsertPostHook_def CallQueryPreHook_def
      CallQueryPostHook_def CallPreHook_def CallPostHook_def EventPreHook_def
      EventPostHook_def Let_def
    by (cases hk) (simp_all only: run_hook.simps InsertPreHook_def InsertPostHook_def
        CallQueryPreHook_def CallQueryPostHook_def CallPreHook_def CallPostHook_def
        EventPreHook_def EventPostHook_def Let_def t a RunHandlers_mono [OF ext])
qed

lemma run_actions_mono:
  assumes ext: "\<And>h a s r. call h a s = Inr r \<Longrightarrow> call' h a s = Inr r"
  shows "run_actions call E as m = Inr m' \<Longrightarrow> run_actions call' E as m = Inr m'"
proof (induction as arbitrary: m)
  case Nil
  then show ?case by simp
next
  case (Cons x xs)
  from Cons.prems obtain m1 where
    m1: "run_action call E x m = Inr m1" "run_actions call E xs m1 = Inr m'"
    by (auto split: sum.splits)
  have "run_action call' E x m = Inr m1"
  proof (cases x)
    case (DoSubscribe name arity type handler)
    with m1(1) show ?thesis by simp
  next
    case (DoHook hk)
    with m1(1) run_hook_mono [of call call', OF ext] show ?thesis by simp
  qed
  with Cons.IH [OF m1(2)] show ?case by simp
qed

lemma lua_call_Suc:
  "lua_call E k h args m = Inr r \<Longrightarrow> lua_call E (Suc k) h args m = Inr r"
proof (induction k arbitrary: h args m r)
  case 0
  then show ?case by simp
next
  case (Suc k)
  from Suc.prems obtain m1 where
    m1: "run_actions (lua_call E k) E (fst (handler_body E h args)) m = Inr m1"
    by (auto split: sum.splits)
  have "run_actions (lua_call E (Suc k)) E (fst (handler_body E h args)) m = Inr m1"
    by (rule run_actions_mono [OF _ m1]) (rule Suc.IH)
  with m1 Suc.prems show ?case by simp
qed

lemma lua_call_mono:
  "lua_call E k h args m = Inr r \<Longrightarrow> lua_call E (k + j) h args m = Inr r"
  by (induction j) (simp_all add: lua_call_Suc del: lua_call.simps)

lemma handlers_return_mono: "handlers_return E k \<Longrightarrow> handlers_return E (k + j)"
  unfolding handlers_return_def by (meson lua_call_mono)

lemma RunHandlers_fuel:
  assumes "RunHandlers (lua_call E k) E nodeRef x m = Inr m'"
  shows "RunHandlers (lua_call E (k + j)) E nodeRef x m = Inr m'"
  by (rule RunHandlers_mono [OF _ assms]) (rule lua_call_mono)

subsection \<open>Order of dispatch\<close>

lemma equal_range_append [simp]:
  "equal_range r (xs @ ys) = equal_range r xs @ equal_range r ys"
  by (simp add: equal_range_def)

lemma equal_range_Cons_eq [simp]: "equal_range r ((r, i) # xs) = i # equal_range r xs"
  by (simp add: equal_range_def)

lemma equal_range_Nil [simp]: "equal_range r [] = []"
  by (simp add: equal_range_def)



lemma dispatches_Subscribe [simp]: "dispatches x (Subscribe E n a t h m) = dispatches x m"
  by (cases x) (simp_all add: dispatches_def)

lemma dispatches_StoryLoaded [simp]: "dispatches x (StoryLoaded E m) = dispatches x m"
  by (cases x) (simp_all add: dispatches_def)


lemma Subscribe_resolved:
  assumes "storyLoaded m" "RegisterNodeHandler_nodeRef E \<lparr>sig_name = n, sig_arity = a, sig_type = t\<rparr> = Inr r"
  shows "nodeSubscriberRefs (Subscribe E n a t h m) = nodeSubscriberRefs m @ [(r, length (subscribers m))]"
  using assms by (simp add: Subscribe_nodeSubscriberRefs)

text \<open>
  The iteration of the name-based map passes over every entry once, whatever the ranks.
\<close>

lemma mset_filter_disjoint:
  "(\<And>x. x \<in> set xs \<Longrightarrow> \<not> (P x \<and> Q x)) \<Longrightarrow>
     mset (filter P xs) + mset (filter Q xs) = mset (filter (\<lambda>x. P x \<or> Q x) xs)"
  by (induction xs) auto

lemma mset_concat_groups:
  "distinct ks \<Longrightarrow>
     mset (concat (map (\<lambda>k. filter (\<lambda>p. fst p = k) xs) ks))
       = mset (filter (\<lambda>p. fst p \<in> set ks) xs)"
proof (induction ks)
  case Nil
  then show ?case by simp
next
  case (Cons k ks)
  then have k: "k \<notin> set ks" and d: "distinct ks" by simp_all
  have "mset (filter (\<lambda>p. fst p = k) xs) + mset (filter (\<lambda>p. fst p \<in> set ks) xs)
      = mset (filter (\<lambda>p. fst p = k \<or> fst p \<in> set ks) xs)"
    by (rule mset_filter_disjoint) (use k in auto)
  with Cons.IH [OF d] show ?case by simp
qed

lemma iteration_order_groups:
  "mset (iteration_order E xs)
     = mset (concat (map (\<lambda>k. filter (\<lambda>p. fst p = k) xs)
         (sort_key (bucket_rank E (map fst xs)) (remdups (map fst xs)))))"
proof -
  have g: "mset (map (Pair k) (range_order E (equal_range k xs)))
      = mset (filter (\<lambda>p. fst p = k) xs)" for k
    unfolding Pair_equal_range [symmetric] by simp
  have "mset (concat (map f ks)) = mset (concat (map f' ks))"
    if "\<And>k. mset (f k) = mset (f' k)" for f f' :: "'a \<Rightarrow> 'b list" and ks
    using that by (induction ks) simp_all
  from this [of "\<lambda>k. map (Pair k) (range_order E (equal_range k xs))"
      "\<lambda>k. filter (\<lambda>p. fst p = k) xs", OF g]
  show ?thesis unfolding iteration_order_def .
qed

lemma mset_iteration_order [simp]: "mset (iteration_order E xs) = mset xs"
proof -
  let ?ks = "sort_key (bucket_rank E (map fst xs)) (remdups (map fst xs))"
  have d: "distinct ?ks" by simp
  have s: "set ?ks = fst ` set xs" by simp
  have "filter (\<lambda>p. fst p \<in> set ?ks) xs = xs"
    unfolding s by (rule filter_True) simp
  with mset_concat_groups [OF d, of xs] iteration_order_groups [of E xs]
  show ?thesis by simp
qed



lemma firing_returns:
  assumes "handlers_return E k" "manager_ok m"
  shows "\<exists>m'. RunHandlers (lua_call E k) E nodeRef x m = Inr m'"
  using RunHandlers_returns [OF assms, of nodeRef x] by blast

lemma RunHandlers_snapshot:
  assumes "manager_ok m" "dispatches x m" "RunHandlers (lua_call E k) E nodeRef x m = Inr m'"
  shows "handlers_invoked_at (Suc (depth m)) (new_events m m')
           = map (\<lambda>i. subscribers m ! i)
               (range_order E (equal_range nodeRef (nodeSubscriberRefs m)))"
    and "later m m'"
    and "RunHandlers (lua_call E (k + j)) E nodeRef x m = Inr m'"
proof -
  from RunHandlers_frame [OF lua_call_ok assms(1), where E1 = E and n1 = k and E = E
      and nodeRef = nodeRef and x = x] assms(2,3)
  show "handlers_invoked_at (Suc (depth m)) (new_events m m')
           = map (\<lambda>i. subscribers m ! i)
               (range_order E (equal_range nodeRef (nodeSubscriberRefs m)))"
    and "later m m'"
    by simp_all
  from assms(3) show "RunHandlers (lua_call E (k + j)) E nodeRef x m = Inr m'"
    by (rule RunHandlers_fuel)
qed






lemma insort_key_const: "insort_key (\<lambda>v. c) x xs = x # xs"
  by (cases xs) simp_all

lemma sort_key_const: "sort_key (\<lambda>v. c) xs = xs"
  by (induction xs) (simp_all add: insort_key_const)

lemma story_keeps_order: "keeps_insertion_order story_env"
  by (simp add: keeps_insertion_order_def range_order_def story_env_def sort_key_const)

lemma story_DB_Players_After:
  "RegisterNodeHandler_nodeRef story_env
     \<lparr>sig_name = ''DB_Players'', sig_arity = 1, sig_type = AfterTrigger\<rparr>
   = Inr 0x800000000000002A"
  by (simp add: RegisterNodeHandler_nodeRef_def RegisterNodeHandler_func_def story_env_def
      story_lookup_def Let_def)





subsection \<open>Subscribing while handlers run\<close>

lemma registered_frame:
  assumes "frame m m'" "registered_from b r H m"
  shows "registered_from b r H m'"
proof -
  from assms(2) obtain i where
    i: "b \<le> i" "i < length (subscribers m)" "(r, i) \<in> set (nodeSubscriberRefs m)"
       "subscribers m ! i = H"
    by (auto simp: registered_from_def)
  from assms(1) obtain new where s: "subscribers m' = subscribers m @ new"
    by (auto simp: frame_def prefix_def)
  from assms(1) obtain more where n: "nodeSubscriberRefs m' = nodeSubscriberRefs m @ more"
    by (auto simp: frame_def prefix_def)
  from i s n have "b \<le> i \<and> i < length (subscribers m') \<and> (r, i) \<in> set (nodeSubscriberRefs m')
      \<and> subscribers m' ! i = H"
    by (simp add: nth_append)
  then show ?thesis unfolding registered_from_def by blast
qed

lemma registered_Subscribe:
  assumes "storyLoaded m" "b \<le> length (subscribers m)"
    "RegisterNodeHandler_nodeRef E \<lparr>sig_name = n, sig_arity = a, sig_type = t\<rparr> = Inr r"
  shows "registered_from b r H (Subscribe E n a t H m)"
  unfolding registered_from_def
  by (rule exI [of _ "length (subscribers m)"])
     (use assms in \<open>simp add: Subscribe_resolved\<close>)

lemma later_frame: "later m m' \<Longrightarrow> frame m m'"
  by (simp add: later_def)

lemma frame_facts:
  assumes "frame m m'"
  shows "manager_ok m'" "storyLoaded m' = storyLoaded m"
    "length (subscribers m) \<le> length (subscribers m')"
  using assms by (auto simp: frame_def prefix_def)

lemma run_actions_registered:
  assumes call: "call_ok call"
    and r: "RegisterNodeHandler_nodeRef E \<lparr>sig_name = n, sig_arity = a, sig_type = t\<rparr> = Inr r"
    and m: "manager_ok m" "storyLoaded m" "b \<le> length (subscribers m)"
    and as: "DoSubscribe n a t H \<in> set as"
    and run: "run_actions call E as m = Inr m'"
  shows "registered_from b r H m'"
  using m as run
proof (induction as arbitrary: m)
  case Nil
  then show ?case by simp
next
  case (Cons x xs)
  from Cons.prems(5) obtain m1 where
    m1: "run_action call E x m = Inr m1" "run_actions call E xs m1 = Inr m'"
    by (auto split: sum.splits)
  from run_action_later [OF call Cons.prems(1), where E = E and a = x] m1(1)
  have f1: "frame m m1" by (simp add: later_frame)
  note k1 = frame_facts [OF f1]
  show ?case
  proof (cases "x = DoSubscribe n a t H")
    case True
    with m1(1) have "m1 = Subscribe E n a t H m" by simp
    with registered_Subscribe [OF Cons.prems(2,3) r] have reg: "registered_from b r H m1" by simp
    from run_actions_later [OF call k1(1), where E = E and as = xs] m1(2)
    have "frame m1 m'" by (simp add: later_frame)
    then show ?thesis using reg by (rule registered_frame)
  next
    case False
    with Cons.prems(4) have "DoSubscribe n a t H \<in> set xs" by simp
    moreover from k1 Cons.prems(2,3) have "storyLoaded m1" "b \<le> length (subscribers m1)"
      by simp_all
    ultimately show ?thesis using m1(2) k1(1) by (intro Cons.IH)
  qed
qed

lemma lua_call_registered:
  assumes r: "RegisterNodeHandler_nodeRef E \<lparr>sig_name = n, sig_arity = a, sig_type = t\<rparr> = Inr r"
    and m: "manager_ok m" "storyLoaded m" "b \<le> length (subscribers m)"
    and as: "DoSubscribe n a t H \<in> set (fst (handler_body E h args))"
    and run: "lua_call E k h args m = Inr (out, m')"
  shows "registered_from b r H m'"
proof (cases k)
  case 0
  with run show ?thesis by simp
next
  case (Suc k')
  with run have "run_actions (lua_call E k') E (fst (handler_body E h args)) m = Inr m'"
    by (simp split: sum.splits)
  from run_actions_registered [OF lua_call_ok r m as this] show ?thesis .
qed


lemma catch_Exception_fields [simp]:
  "subscribers (catch_Exception n m) = subscribers m"
  "nodeSubscriberRefs (catch_Exception n m) = nodeSubscriberRefs m"
  by (simp_all add: catch_Exception_def lua_pop_def log_def Let_def)

lemma run_pushed_call:
  assumes m2: "m2 = s\<lparr>stack := pushed @ LuaFunction func # stack s\<rparr>" "length pushed = numArgs"
    and run: "(case CallWithTraceback call numArgs m2 of
                Inl e \<Rightarrow> Inl e
              | Inr (CallOk, m) \<Rightarrow> Inr m
              | Inr (CallFailed, m) \<Rightarrow> Inr (lua_pop 1 (log LuaError m))
              | Inr (CallThrew, m) \<Rightarrow> Inr (catch_Exception stackSize m)) = Inr s'"
  shows "\<exists>out m4 tr. call func (rev pushed)
             (s\<lparr>stack := pushed @ LuaFunction func # stack s, trace := tr\<rparr>) = Inr (out, m4)
           \<and> subscribers s' = subscribers m4
           \<and> nodeSubscriberRefs s' = nodeSubscriberRefs m4"
proof -
  let ?m3 = "s\<lparr>stack := pushed @ LuaFunction func # stack s,
               trace := trace s @ [Invoked (depth s) func (rev pushed)]\<rparr>"
  from m2 have d: "drop numArgs (stack m2) = LuaFunction func # stack s"
    and a: "rev (take numArgs (stack m2)) = rev pushed"
    and l: "log (Invoked (depth m2) func (rev pushed)) m2 = ?m3"
    by (simp_all add: log_def)
  show ?thesis
  proof (cases "call func (rev pushed) ?m3")
    case (Inl e)
    with d a l run show ?thesis by (simp add: CallWithTraceback_def Let_def)
  next
    case (Inr p)
    obtain out m4 where p: "p = (out, m4)" by (cases p)
    have c: "CallWithTraceback call numArgs m2 =
        (case out of
           Returned \<Rightarrow> Inr (CallOk, m4\<lparr>stack := stack s\<rparr>)
         | ScriptError \<Rightarrow> Inr (CallFailed, m4\<lparr>stack := LuaErrorMessage # stack s\<rparr>)
         | NativeFault left \<Rightarrow> Inr (CallThrew, m4\<lparr>stack := left @ stack m2\<rparr>))"
      using Inr p d a l by (simp add: CallWithTraceback_def Let_def split: outcome.split)
    from run have "subscribers s' = subscribers m4 \<and> nodeSubscriberRefs s' = nodeSubscriberRefs m4"
      unfolding c by (cases out) (auto simp: lua_pop_def log_def)
    with Inr p show ?thesis by blast
  qed
qed

lemma registered_cong:
  "subscribers s' = subscribers m4 \<Longrightarrow> nodeSubscriberRefs s' = nodeSubscriberRefs m4 \<Longrightarrow>
     registered_from b r H m4 \<Longrightarrow> registered_from b r H s'"
  by (simp add: registered_from_def)

lemma pushed_registered:
  assumes r: "RegisterNodeHandler_nodeRef E \<lparr>sig_name = n, sig_arity = a, sig_type = t\<rparr> = Inr r"
    and s: "manager_ok s" "storyLoaded s" "b \<le> length (subscribers s)"
    and as: "DoSubscribe n a t H \<in> set (fst (handler_body E h (rev pushed)))"
    and m2: "m2 = s\<lparr>stack := pushed @ LuaFunction h # stack s\<rparr>" "length pushed = numArgs"
    and run: "(case CallWithTraceback (lua_call E k) numArgs m2 of
                Inl e \<Rightarrow> Inl e
              | Inr (CallOk, m) \<Rightarrow> Inr m
              | Inr (CallFailed, m) \<Rightarrow> Inr (lua_pop 1 (log LuaError m))
              | Inr (CallThrew, m) \<Rightarrow> Inr (catch_Exception stackSize m)) = Inr s'"
  shows "registered_from b r H s'"
proof -
  from run_pushed_call [OF m2 run] obtain out m4 tr where
    c: "lua_call E k h (rev pushed)
          (s\<lparr>stack := pushed @ LuaFunction h # stack s, trace := tr\<rparr>) = Inr (out, m4)"
    and e: "subscribers s' = subscribers m4" "nodeSubscriberRefs s' = nodeSubscriberRefs m4"
    by blast
  from s have "manager_ok (s\<lparr>stack := pushed @ LuaFunction h # stack s, trace := tr\<rparr>)"
    "storyLoaded (s\<lparr>stack := pushed @ LuaFunction h # stack s, trace := tr\<rparr>)"
    "b \<le> length (subscribers (s\<lparr>stack := pushed @ LuaFunction h # stack s, trace := tr\<rparr>))"
    by simp_all
  from lua_call_registered [OF r this as c] have "registered_from b r H m4" .
  with e show ?thesis by (rule registered_cong)
qed

lemma RunHandler_registered:
  assumes r: "RegisterNodeHandler_nodeRef E \<lparr>sig_name = n, sig_arity = a, sig_type = t\<rparr> = Inr r"
    and s: "manager_ok s" "storyLoaded s" "b \<le> length (subscribers s)"
    and as: "DoSubscribe n a t H \<in> set (fst (handler_body E h (lua_args E x)))"
    and run: "RunHandler (lua_call E k) E h x s = Inr s'"
  shows "registered_from b r H s'"
proof -
  let ?m1 = "s\<lparr>stack := LuaFunction h # stack s\<rparr>"
  let ?p = "case x of
      Tuple None \<Rightarrow> (0, ?m1)
    | Tuple (Some items) \<Rightarrow> push_args E items 0 ?m1
    | ArgumentDesc args \<Rightarrow> push_args E args 0 ?m1"
  obtain numArgs m2 where p: "?p = (numArgs, m2)" by (cases ?p)
  have "\<exists>pushed. m2 = s\<lparr>stack := pushed @ LuaFunction h # stack s\<rparr>
          \<and> length pushed = numArgs \<and> rev pushed = lua_args E x"
  proof (cases x)
    case (Tuple tuple)
    show ?thesis
    proof (cases tuple)
      case None
      with Tuple p show ?thesis by auto
    next
      case (Some items)
      with Tuple p have "push_args E items 0 ?m1 = (numArgs, m2)" by simp
      from push_args_stack [OF this] Tuple Some show ?thesis by auto
    qed
  next
    case (ArgumentDesc args)
    with p have "push_args E args 0 ?m1 = (numArgs, m2)" by simp
    from push_args_stack [OF this] ArgumentDesc show ?thesis by auto
  qed
  then obtain pushed where
    m2: "m2 = s\<lparr>stack := pushed @ LuaFunction h # stack s\<rparr>" "length pushed = numArgs"
    and rp: "rev pushed = lua_args E x"
    by blast
  from as rp have as': "DoSubscribe n a t H \<in> set (fst (handler_body E h (rev pushed)))" by simp
  have "(case CallWithTraceback (lua_call E k) numArgs m2 of
                Inl e \<Rightarrow> Inl e
              | Inr (CallOk, m) \<Rightarrow> Inr m
              | Inr (CallFailed, m) \<Rightarrow> Inr (lua_pop 1 (log LuaError m))
              | Inr (CallThrew, m) \<Rightarrow> Inr (catch_Exception (int (length (stack s))) m)) = Inr s'"
  proof (cases x)
    case (Tuple tuple)
    with run p show ?thesis
      by (cases tuple) (simp_all add: RunHandler_tuple_def Let_def)
  next
    case (ArgumentDesc args)
    with run p show ?thesis by (simp add: RunHandler_args_def Let_def)
  qed
  from pushed_registered [OF r s as' m2 this] show ?thesis .
qed


lemma for_indices_step:
  assumes m1: "manager_ok m1" "depth m1 = Suc d" "cache m1 ! d = v" "heap m1 ! v = its"
      "\<And>x. x \<in> set its \<Longrightarrow> x < length (subscribers m1)"
    and s: "frame m1 s" "i < length its"
  shows "for_indices body v i (Suc k) s =
      (case body (subscribers m1 ! (its ! i)) s of
         Inl e \<Rightarrow> Inl e
       | Inr s1 \<Rightarrow> for_indices body v (i + 1) k s1)"
proof -
  from s(1) have ok: "manager_ok s" by (simp add: frame_def)
  from m1(1,2) have dl: "d < length (cache m1)" by (simp add: manager_ok_def pool_ok_def)
  from s(1) have "prefix (cache m1) (cache s)" by (simp add: frame_def)
  with dl m1(3) have cs: "d < length (cache s)" "cache s ! d = v"
    by (auto simp: prefix_def nth_append)
  then have "v \<in> set (cache s)" by (metis nth_mem)
  with ok have vl: "v < length (heap s)" by (simp add: manager_ok_def pool_ok_def)
  from s(1) m1(2,3) have "heap s ! v = heap m1 ! v"
    unfolding frame_def by (metis lessI)
  with m1(4) have hv: "heap s ! v = its" by simp
  from s(2) m1(5) have x1: "its ! i < length (subscribers m1)" by simp
  from s(1) have "prefix (subscribers m1) (subscribers s)" by (simp add: frame_def)
  with x1 have "its ! i < length (subscribers s)"
    "subscribers s ! (its ! i) = subscribers m1 ! (its ! i)"
    by (auto simp: prefix_def nth_append)
  with vl hv s(2) show ?thesis by (simp add: Let_def)
qed

lemma for_indices_registered:
  assumes body: "\<And>func s. manager_ok s \<Longrightarrow>
      (case body func s of
         Inl e \<Rightarrow> F e
       | Inr s' \<Rightarrow> frame s s'
           \<and> (\<exists>a evs. new_events s s' = Invoked (depth s) func a # evs
                  \<and> list_all (from_depth (Suc (depth s))) evs))"
    and reg: "\<And>s s'. manager_ok s \<Longrightarrow> storyLoaded s \<Longrightarrow> b \<le> length (subscribers s) \<Longrightarrow>
      body h s = Inr s' \<Longrightarrow> registered_from b r H s'"
    and m1: "manager_ok m1" "depth m1 = Suc d" "cache m1 ! d = v" "heap m1 ! v = its"
      "\<And>x. x \<in> set its \<Longrightarrow> x < length (subscribers m1)"
    and l: "storyLoaded m1" "b \<le> length (subscribers m1)"
    and s: "frame m1 s" "i + k = length its"
    and h: "h \<in> set (map (\<lambda>x. subscribers m1 ! x) (drop i its))"
    and run: "for_indices body v i k s = Inr s'"
  shows "registered_from b r H s'"
  using s h run
proof (induction k arbitrary: i s)
  case 0
  then show ?case by simp
next
  case (Suc k)
  from Suc.prems(2) have il: "i < length its" by simp
  let ?f = "subscribers m1 ! (its ! i)"
  note step = for_indices_step [OF m1 Suc.prems(1) il, of body k]
  from Suc.prems(4) step obtain s1 where
    s1: "body ?f s = Inr s1" "for_indices body v (Suc i) k s1 = Inr s'"
    by (auto split: sum.splits)
  from Suc.prems(1) have ok: "manager_ok s" by (simp add: frame_def)
  from body [OF ok, of ?f] s1(1) have f1: "frame s s1" by simp
  from frame_trans [OF Suc.prems(1) f1] have fm: "frame m1 s1" .
  from Suc.prems(2) have ik: "Suc i + k = length its" by simp
  show ?case
  proof (cases "h = ?f")
    case True
    from frame_facts [OF Suc.prems(1)] l have "storyLoaded s" "b \<le> length (subscribers s)"
      by simp_all
    from reg [OF ok this] s1(1) True have r1: "registered_from b r H s1" by simp
    from for_indices_frame [OF body m1(2-5) fm ik] s1(2) have "frame s1 s'" by simp
    then show ?thesis using r1 by (rule registered_frame)
  next
    case False
    from Suc.prems(3) il have "h \<in> set (?f # map (\<lambda>x. subscribers m1 ! x) (drop (Suc i) its))"
      by (simp add: Cons_nth_drop_Suc [symmetric])
    with False have "h \<in> set (map (\<lambda>x. subscribers m1 ! x) (drop (Suc i) its))" by simp
    from Suc.IH [OF fm ik this s1(2)] show ?thesis .
  qed
qed


lemma RunHandler_frame:
  assumes "call_ok call" "manager_ok s"
  shows "case RunHandler call E func x s of
           Inl e \<Rightarrow> call_fault call e
         | Inr s' \<Rightarrow> frame s s'
             \<and> (\<exists>a evs. new_events s s' = Invoked (depth s) func a # evs
                    \<and> list_all (from_depth (Suc (depth s))) evs)"
proof (cases x)
  case (Tuple tuple)
  from RunHandler_tuple_frame [OF assms, where E = E and func = func and tuple = tuple]
  show ?thesis by (simp only: Tuple RunHandler.simps)
next
  case (ArgumentDesc args)
  from RunHandler_args_frame [OF assms, where E = E and func = func and args = args]
  show ?thesis by (simp only: ArgumentDesc RunHandler.simps)
qed

lemma RunHandlers_unfold:
  "RunHandlers call E nodeRef x m =
     (if gated x m then Inr m
      else if range_order E (equal_range nodeRef (nodeSubscriberRefs m)) = [] then Inr m
      else if luaAvailable m
      then (case Enter (range_order E (equal_range nodeRef (nodeSubscriberRefs m))) m of
              Inl e \<Rightarrow> Inl e
            | Inr (indices, m1) \<Rightarrow>
                (case for_indices (\<lambda>func. RunHandler call E func x) indices 0
                        (length (heap m1 ! indices)) m1 of
                   Inl e \<Rightarrow> Inl e
                 | Inr m2 \<Rightarrow> Exit indices m2))
      else Inr m)"
proof (cases x)
  case (Tuple tuple)
  show ?thesis
    unfolding Tuple RunHandlers.simps RunHandler.simps gated.simps RunHandlers_tuple_def Let_def
    by (rule refl)
next
  case (ArgumentDesc args)
  show ?thesis
    unfolding ArgumentDesc RunHandlers.simps RunHandler.simps gated.simps RunHandlers_args_def
      Let_def if_False
    by (rule refl)
qed

lemma RunHandlers_registered:
  assumes r: "RegisterNodeHandler_nodeRef E \<lparr>sig_name = n, sig_arity = a, sig_type = t\<rparr> = Inr nodeRef"
    and m: "manager_ok m" "dispatches x m" "storyLoaded m"
    and h: "h \<in> set (map (\<lambda>i. subscribers m ! i) (equal_range nodeRef (nodeSubscriberRefs m)))"
    and as: "DoSubscribe n a t H \<in> set (fst (handler_body E h (lua_args E x)))"
    and run: "RunHandlers (lua_call E k) E nodeRef x m = Inr m'"
  shows "registered_from (length (subscribers m)) nodeRef H m'"
proof -
  let ?its = "range_order E (equal_range nodeRef (nodeSubscriberRefs m))"
  let ?body = "\<lambda>func. RunHandler (lua_call E k) E func x"
  from h have ne: "equal_range nodeRef (nodeSubscriberRefs m) \<noteq> []" by auto
  from Enter_manager_ok [OF m(1), of ?its] obtain v m1 where
    en: "Enter ?its m = Inr (v, m1)"
    and m1: "manager_ok m1" "depth m1 = Suc (depth m)" "prefix (cache m) (cache m1)"
      "depth m < length (cache m1)" "cache m1 ! depth m = v"
      "\<forall>j < depth m. heap m1 ! (cache m ! j) = heap m ! (cache m ! j)"
      "subscribers m1 = subscribers m" "nodeSubscriberRefs m1 = nodeSubscriberRefs m"
      "stack m1 = stack m" "luaAvailable m1 = luaAvailable m" "merging m1 = merging m"
      "storyLoaded m1 = storyLoaded m" "trace m1 = trace m"
    and hv: "heap m1 ! v = ?its"
    by blast
  from m(2) ne have g: "\<not> gated x m" "luaAvailable m" by (simp_all add: dispatches_def)
  have "RunHandlers (lua_call E k) E nodeRef x m =
      (case for_indices ?body v 0 (length ?its) m1 of
         Inl e \<Rightarrow> Inl e
       | Inr m2 \<Rightarrow> Exit v m2)"
    by (subst RunHandlers_unfold) (simp add: g ne en hv)
  with run have "(case for_indices ?body v 0 (length ?its) m1 of
         Inl e \<Rightarrow> Inl e
       | Inr m2 \<Rightarrow> Exit v m2) = Inr m'"
    by simp
  then obtain m2 where
    loop: "for_indices ?body v 0 (length ?its) m1 = Inr m2" and ex: "Exit v m2 = Inr m'"
    by (cases "for_indices ?body v 0 (length ?its) m1") simp_all
  have its1: "i < length (subscribers m1)" if "i \<in> set ?its" for i
    using equal_range_valid [OF m(1) that] m1(7) by simp
  from m(3) m1(12) have l1: "storyLoaded m1" by simp
  from m1(7) have b1: "length (subscribers m) \<le> length (subscribers m1)" by simp
  from h m1(7) have h1: "h \<in> set (map (\<lambda>i. subscribers m1 ! i) (drop 0 ?its))" by simp
  have r2: "registered_from (length (subscribers m)) nodeRef H m2"
  proof (rule for_indices_registered [where body = ?body and h = h and ?m1.0 = m1
        and d = "depth m" and v = v and its = ?its and s = m1 and i = 0
        and k = "length ?its" and b = "length (subscribers m)" and r = nodeRef and H = H
        and F = "call_fault (lua_call E k)"])
    show "case ?body func s of
         Inl e \<Rightarrow> call_fault (lua_call E k) e
       | Inr s' \<Rightarrow> frame s s'
           \<and> (\<exists>a evs. new_events s s' = Invoked (depth s) func a # evs
                  \<and> list_all (from_depth (Suc (depth s))) evs)" if "manager_ok s" for func s
      by (rule RunHandler_frame [OF lua_call_ok that])
    show "registered_from (length (subscribers m)) nodeRef H s'"
      if "manager_ok s" "storyLoaded s" "length (subscribers m) \<le> length (subscribers s)"
        "?body h s = Inr s'" for s s'
      by (rule RunHandler_registered [OF r that(1-3) as that(4)])
    show "manager_ok m1" by (rule m1(1))
    show "depth m1 = Suc (depth m)" by (rule m1(2))
    show "cache m1 ! depth m = v" by (rule m1(5))
    show "heap m1 ! v = ?its" by (rule hv)
    show "i < length (subscribers m1)" if "i \<in> set ?its" for i using that by (rule its1)
    show "storyLoaded m1" by (rule l1)
    show "length (subscribers m) \<le> length (subscribers m1)" by (rule b1)
    show "frame m1 m1" by (rule frame_refl [OF m1(1)])
    show "0 + length ?its = length ?its" by simp
    show "h \<in> set (map (\<lambda>i. subscribers m1 ! i) (drop 0 ?its))" by (rule h1)
    show "for_indices ?body v 0 (length ?its) m1 = Inr m2" by (rule loop)
  qed
  from ex have e: "subscribers m' = subscribers m2"
    "nodeSubscriberRefs m' = nodeSubscriberRefs m2"
    by (auto simp: Exit_def split: if_splits)
  from e r2 show ?thesis by (rule registered_cong)
qed


lemma equal_range_mem: "(r, i) \<in> set xs \<Longrightarrow> i \<in> set (equal_range r xs)"
  by (force simp: equal_range_def)

lemma frame_dispatches: "frame m m' \<Longrightarrow> dispatches x m' = dispatches x m"
  by (cases x) (simp_all add: frame_def dispatches_def)

text \<open>
  C3. A firing on a well-formed manager that dispatches comes to its end, however many
  handlers are registered for its node reference, whenever the handler bodies come to
  theirs within \<open>k\<close> levels of nesting. Whatever the handlers do, a firing that has come
  to its end within \<open>k\<close> levels has the same result for every larger allowance; it has
  invoked exactly the handlers its iterator range held when it started, each once and in
  the order of the range; and it leaves a well-formed manager at the same depth, on which
  the next firing comes to its end on the same condition. When one of the handlers of the
  firing called \<^verbatim>\<open>Subscribe\<close> for a signature that resolves to the same reference (the
  story being loaded), the new handler is registered afterwards under an index that did
  not exist when the firing started and was not in its range, so it was not part of that
  firing; and the next firing of the reference invokes it.
\<close>

theorem subscribe_during_dispatch:
  assumes "manager_ok m" "dispatches x m"
  shows "(handlers_return E k \<longrightarrow> (\<exists>m'. RunHandlers (lua_call E k) E nodeRef x m = Inr m'))
     \<and> (RunHandlers (lua_call E k) E nodeRef x m = Inr m' \<longrightarrow>
          (\<forall>j. RunHandlers (lua_call E (k + j)) E nodeRef x m = Inr m')
        \<and> handlers_invoked_at (Suc (depth m)) (new_events m m')
            = map (\<lambda>i. subscribers m ! i)
                (range_order E (equal_range nodeRef (nodeSubscriberRefs m)))
        \<and> manager_ok m' \<and> depth m' = depth m \<and> dispatches x' m' = dispatches x' m
        \<and> (handlers_return E k \<longrightarrow>
              (\<exists>m''. RunHandlers (lua_call E k) E nodeRef x' m' = Inr m''))
        \<and> (storyLoaded m
             \<and> h \<in> set (map (\<lambda>i. subscribers m ! i) (equal_range nodeRef (nodeSubscriberRefs m)))
             \<and> DoSubscribe n a t H \<in> set (fst (handler_body E h (lua_args E x)))
             \<and> RegisterNodeHandler_nodeRef E \<lparr>sig_name = n, sig_arity = a, sig_type = t\<rparr>
                 = Inr nodeRef
            \<longrightarrow> (\<exists>i. length (subscribers m) \<le> i
                     \<and> i \<notin> set (equal_range nodeRef (nodeSubscriberRefs m))
                     \<and> i \<in> set (equal_range nodeRef (nodeSubscriberRefs m'))
                     \<and> subscribers m' ! i = H)
                \<and> (dispatches x' m
                     \<and> RunHandlers (lua_call E k') E nodeRef x' m' = Inr m''
                    \<longrightarrow> handlers_invoked_at (Suc (depth m)) (new_events m' m'')
                          = map (\<lambda>i. subscribers m' ! i)
                              (range_order E (equal_range nodeRef (nodeSubscriberRefs m')))
                        \<and> H \<in> set (handlers_invoked_at (Suc (depth m)) (new_events m' m'')))))"
proof (intro conjI impI)
  show "\<exists>m'. RunHandlers (lua_call E k) E nodeRef x m = Inr m'" if "handlers_return E k"
    using that assms(1) by (rule firing_returns)
next
  assume run: "RunHandlers (lua_call E k) E nodeRef x m = Inr m'"
  note snap = RunHandlers_snapshot [OF assms run]
  from snap(3) show "\<forall>j. RunHandlers (lua_call E (k + j)) E nodeRef x m = Inr m'" by blast
  from snap(1) show "handlers_invoked_at (Suc (depth m)) (new_events m m')
            = map (\<lambda>i. subscribers m ! i)
                (range_order E (equal_range nodeRef (nodeSubscriberRefs m)))" .
  from snap(2) have f: "frame m m'" by (rule later_frame)
  then show ok': "manager_ok m'" and d': "depth m' = depth m" by (simp_all add: frame_def)
  show disp: "dispatches x' m' = dispatches x' m" by (rule frame_dispatches [OF f])
  show "\<exists>m''. RunHandlers (lua_call E k) E nodeRef x' m' = Inr m''" if "handlers_return E k"
    using that ok' by (rule firing_returns)
  assume sub: "storyLoaded m
             \<and> h \<in> set (map (\<lambda>i. subscribers m ! i) (equal_range nodeRef (nodeSubscriberRefs m)))
             \<and> DoSubscribe n a t H \<in> set (fst (handler_body E h (lua_args E x)))
             \<and> RegisterNodeHandler_nodeRef E \<lparr>sig_name = n, sig_arity = a, sig_type = t\<rparr>
                 = Inr nodeRef"
  then have l: "storyLoaded m"
    and h: "h \<in> set (map (\<lambda>i. subscribers m ! i) (equal_range nodeRef (nodeSubscriberRefs m)))"
    and as: "DoSubscribe n a t H \<in> set (fst (handler_body E h (lua_args E x)))"
    and r: "RegisterNodeHandler_nodeRef E \<lparr>sig_name = n, sig_arity = a, sig_type = t\<rparr>
                = Inr nodeRef"
    by simp_all
  from RunHandlers_registered [OF r assms l h as run] obtain i where
    i: "length (subscribers m) \<le> i" "(nodeRef, i) \<in> set (nodeSubscriberRefs m')"
       "subscribers m' ! i = H"
    by (auto simp: registered_from_def)
  from i(2) have mem: "i \<in> set (equal_range nodeRef (nodeSubscriberRefs m'))"
    by (rule equal_range_mem)
  have fresh: "i \<notin> set (equal_range nodeRef (nodeSubscriberRefs m))"
  proof
    assume "i \<in> set (equal_range nodeRef (nodeSubscriberRefs m))"
    then have "i \<in> set (range_order E (equal_range nodeRef (nodeSubscriberRefs m)))" by simp
    from equal_range_valid [OF assms(1) this] i(1) show False by simp
  qed
  from i(1,3) mem fresh
  show "\<exists>i. length (subscribers m) \<le> i
                     \<and> i \<notin> set (equal_range nodeRef (nodeSubscriberRefs m))
                     \<and> i \<in> set (equal_range nodeRef (nodeSubscriberRefs m'))
                     \<and> subscribers m' ! i = H"
    by blast
  assume nxt: "dispatches x' m \<and> RunHandlers (lua_call E k') E nodeRef x' m' = Inr m''"
  with disp have "dispatches x' m'" by simp
  from RunHandlers_snapshot(1) [OF ok' this conjunct2 [OF nxt]] d'
  show e: "handlers_invoked_at (Suc (depth m)) (new_events m' m'')
      = map (\<lambda>i. subscribers m' ! i)
          (range_order E (equal_range nodeRef (nodeSubscriberRefs m')))"
    by simp
  from mem i(3) have "H \<in> set (map (\<lambda>i. subscribers m' ! i)
      (range_order E (equal_range nodeRef (nodeSubscriberRefs m'))))"
    by force
  with e show "H \<in> set (handlers_invoked_at (Suc (depth m)) (new_events m' m''))" by simp
qed

lemma subscribing_manager_eq:
  "subscribing_manager =
     \<lparr>subscribers = [1, 2, 3, 6],
      nameSubscriberRefs =
        [(\<lparr>sig_name = ''DB_Players'', sig_arity = 1, sig_type = AfterTrigger\<rparr>, 0),
         (\<lparr>sig_name = ''DB_Players'', sig_arity = 1, sig_type = AfterTrigger\<rparr>, 1),
         (\<lparr>sig_name = ''DB_Players'', sig_arity = 1, sig_type = AfterTrigger\<rparr>, 2),
         (\<lparr>sig_name = ''DB_Players'', sig_arity = 1, sig_type = AfterTrigger\<rparr>, 3)],
      nodeSubscriberRefs =
        [(0x800000000000002A, 0), (0x800000000000002A, 1), (0x800000000000002A, 2),
         (0x800000000000002A, 3)],
      cache = [], depth = 0, heap = [], storyLoaded = True,
      osirisHooked = True, merging = False, luaAvailable = True, stack = [],
      trace = [HookNodeVMTs, BindCallbackManager]\<rparr>"
  by (simp add: subscribing_manager_def run_simps)

lemma first_firing:
  "RunHandlers (lua_call story_env 1) story_env 0x800000000000002A (Tuple (Some [5]))
     subscribing_manager = Inr fired_once"
  by (simp add: subscribing_manager_eq fired_once_def run_simps)

lemma second_firing:
  "RunHandlers (lua_call story_env 1) story_env 0x800000000000002A (Tuple None) fired_once
     = Inr fired_twice"
  by (simp add: fired_once_def fired_twice_def run_simps)

theorem subscribe_during_dispatch_witness:
  "manager_ok subscribing_manager
   \<and> dispatches (Tuple (Some [5])) subscribing_manager
   \<and> handlers_return story_env 1
   \<and> storyLoaded subscribing_manager
   \<and> subscribers subscribing_manager = [1, 2, 3, 6]
   \<and> DoSubscribe ''DB_Players'' 1 AfterTrigger 4
        \<in> set (fst (handler_body story_env 1 (lua_args story_env (Tuple (Some [5])))))
   \<and> RunHandlers (lua_call story_env 1) story_env 0x800000000000002A (Tuple (Some [5]))
        subscribing_manager = Inr fired_once
   \<and> RunHandlers (lua_call story_env 9) story_env 0x800000000000002A (Tuple (Some [5]))
        subscribing_manager = Inr fired_once
   \<and> handlers_invoked_at 1 (new_events subscribing_manager fired_once) = [1, 2, 3, 6]
   \<and> subscribers fired_once = [1, 2, 3, 6, 4]
   \<and> RunHandlers (lua_call story_env 1) story_env 0x800000000000002A (Tuple None) fired_once
        = Inr fired_twice
   \<and> handlers_invoked_at 1 (new_events fired_once fired_twice) = [1, 2, 3, 6, 4]"
proof -
  have ok: "manager_ok subscribing_manager"
    by (simp add: subscribing_manager_eq manager_ok_def pool_ok_def indices_valid_def)
  have d: "dispatches (Tuple (Some [5])) subscribing_manager"
    "dispatches (Tuple None) subscribing_manager"
    by (simp_all add: subscribing_manager_eq dispatches_def)
  have ret: "handlers_return story_env 1"
    using subscribes_only_return [OF story_subscribes_only, of 0] by simp
  have l: "storyLoaded subscribing_manager" by (simp add: subscribing_manager_eq)
  have s: "subscribers subscribing_manager = [1, 2, 3, 6]"
    "subscribers fired_once = [1, 2, 3, 6, 4]"
    by (simp_all add: subscribing_manager_eq fired_once_def)
  have b: "DoSubscribe ''DB_Players'' 1 AfterTrigger 4
        \<in> set (fst (handler_body story_env 1 (lua_args story_env (Tuple (Some [5])))))"
    by (simp add: story_env_def story_body_def)
  have h: "1 \<in> set (map (\<lambda>i. subscribers subscribing_manager ! i)
      (equal_range 0x800000000000002A (nodeSubscriberRefs subscribing_manager)))"
    by (simp add: subscribing_manager_eq)
  have ro: "range_order story_env vs = vs" for vs
    using story_keeps_order by (simp add: keeps_insertion_order_def)
  have e: "depth subscribing_manager = 0"
    "map (\<lambda>i. subscribers subscribing_manager ! i)
      (equal_range 0x800000000000002A (nodeSubscriberRefs subscribing_manager)) = [1, 2, 3, 6]"
    "map (\<lambda>i. subscribers fired_once ! i)
      (equal_range 0x800000000000002A (nodeSubscriberRefs fired_once)) = [1, 2, 3, 6, 4]"
    by (simp_all add: subscribing_manager_eq fired_once_def)
  let ?run = "\<lambda>k. RunHandlers (lua_call story_env k) story_env 0x800000000000002A
      (Tuple (Some [5])) subscribing_manager"
  note th = subscribe_during_dispatch [OF ok d(1), where E = story_env and k = 1
      and x' = "Tuple None" and h = 1 and n = "''DB_Players''" and a = 1 and t = AfterTrigger
      and H = 4 and nodeRef = "0x800000000000002A" and k' = 1]
  from th [where m' = fired_once and m'' = fired_twice] ret
  obtain m1 where m1: "?run 1 = Inr m1" by blast
  with first_firing have 1: "m1 = fired_once" by simp
  from th [where m' = fired_once and m'' = fired_twice] first_firing ret
  obtain m2 where m2: "RunHandlers (lua_call story_env 1) story_env 0x800000000000002A
      (Tuple None) fired_once = Inr m2"
    by blast
  with second_firing have 2: "m2 = fired_twice" by simp
  from th [where m' = fired_once and m'' = fired_twice] first_firing second_firing
    l h b story_DB_Players_After d(2)
  have p: "\<forall>j. ?run (1 + j) = Inr fired_once"
    "handlers_invoked_at (Suc (depth subscribing_manager)) (new_events subscribing_manager fired_once)
        = map (\<lambda>i. subscribers subscribing_manager ! i)
            (range_order story_env
              (equal_range 0x800000000000002A (nodeSubscriberRefs subscribing_manager)))"
    "handlers_invoked_at (Suc (depth subscribing_manager)) (new_events fired_once fired_twice)
        = map (\<lambda>i. subscribers fired_once ! i)
            (range_order story_env
              (equal_range 0x800000000000002A (nodeSubscriberRefs fired_once)))"
    by blast+
  from p(1) have "?run (1 + 8) = Inr fired_once" by blast
  then have run9: "?run 9 = Inr fired_once" by simp
  from p(2,3) e ro
  have "handlers_invoked_at 1 (new_events subscribing_manager fired_once) = [1, 2, 3, 6]"
    "handlers_invoked_at 1 (new_events fired_once fired_twice) = [1, 2, 3, 6, 4]"
    by simp_all
  with ok d(1) ret l s b m1 1 m2 2 run9 show ?thesis by blast
qed
end
